theory Spec2Isabelle
  imports Complex_Main
begin

section \<open>The city grid (city.js)\<close>

text \<open>
  Tile classes are the constants of \<open>TILE\<close> (0 to 5).  A cell is a pair of integer
  coordinates \<open>(x, y)\<close>.  The city holds its dimensions, the grid as an array of rows
  (\<open>grid[y][x]\<close>) and the table of display names.
\<close>

datatype tile = EMPTY | ROAD | HOUSE | BUSINESS | LEISURE | EATERY

type_synonym cell = "int \<times> int"

record city =
  cols :: int
  rows :: int
  grid :: "tile list list"
  tileNames :: "cell \<Rightarrow> string option"

text \<open>The constructor of \<open>City\<close> builds \<open>rows\<close> rows of \<open>cols\<close> tiles each.\<close>

definition city_wf :: "city \<Rightarrow> bool" where
  "city_wf c \<longleftrightarrow>
     0 \<le> cols c \<and> 0 \<le> rows c \<and> length (grid c) = nat (rows c) \<and>
     list_all (\<lambda>row. length row = nat (cols c)) (grid c)"

text \<open>\<open>city.grid[y][x]\<close>, read only after the bounds check of the caller.\<close>

definition tileAt :: "city \<Rightarrow> cell \<Rightarrow> tile" where
  "tileAt c p = grid c ! nat (snd p) ! nat (fst p)"

definition inBounds :: "city \<Rightarrow> cell \<Rightarrow> bool" where
  "inBounds c p \<longleftrightarrow> 0 \<le> fst p \<and> fst p < cols c \<and> 0 \<le> snd p \<and> snd p < rows c"

text \<open>\<open>getTile\<close>: \<open>EMPTY\<close> outside the grid.\<close>

definition getTile :: "city \<Rightarrow> cell \<Rightarrow> tile" where
  "getTile c p = (if \<not> inBounds c p then EMPTY else tileAt c p)"

text \<open>\<open>getNameAt\<close>: \<open>tileNames.get(..) || null\<close>, so an empty name counts as none.\<close>

definition getNameAt :: "city \<Rightarrow> cell \<Rightarrow> string option" where
  "getNameAt c p = (case tileNames c p of None \<Rightarrow> None
                     | Some n \<Rightarrow> if n = [] then None else Some n)"

section \<open>The router (pathfinding.js)\<close>

text \<open>
  \<open>key(px, py) = py * cols + px\<close>.  The map \<open>cameFrom\<close> sends a key to its parent key,
  or to \<open>null\<close> for the start: \<open>Some None\<close> is the stored \<open>null\<close>, \<open>None\<close> an absent key.
\<close>

definition key :: "city \<Rightarrow> cell \<Rightarrow> int" where
  "key c p = snd p * cols c + fst p"

type_synonym cameFrom = "int \<Rightarrow> int option option"

definition dirs :: "(int \<times> int) list" where
  "dirs = [(0, -1), (0, 1), (-1, 0), (1, 0)]"

text \<open>JavaScript's \<open>%\<close> takes the sign of the dividend.\<close>

definition js_rem :: "int \<Rightarrow> int \<Rightarrow> int" where
  "js_rem a b = sgn a * (\<bar>a\<bar> mod \<bar>b\<bar>)"

text \<open>
  The inner \<open>for\<close> loop over the directions still to try, for the dequeued cell \<open>(cx, cy)\<close>.
  \<open>Inl (k, cameFrom)\<close>: the destination was reached under key \<open>k\<close> (the loop is left by
  \<open>return\<close>); \<open>Inr (queue, cameFrom)\<close>: the loop ran to its end.
\<close>

fun scanDirs :: "city \<Rightarrow> cell \<Rightarrow> cell \<Rightarrow> (int \<times> int) list \<Rightarrow> cell list \<Rightarrow> cameFrom
                 \<Rightarrow> (int \<times> cameFrom) + (cell list \<times> cameFrom)" where
  "scanDirs c e cur [] queue cf = Inr (queue, cf)"
| "scanDirs c e cur (d # ds) queue cf =
     (let nx = fst cur + fst d; ny = snd cur + snd d in
      if nx < 0 \<or> nx \<ge> cols c \<or> ny < 0 \<or> ny \<ge> rows c then scanDirs c e cur ds queue cf
      else let k = key c (nx, ny) in
        if cf k \<noteq> None then scanDirs c e cur ds queue cf
        else if tileAt c (nx, ny) \<noteq> ROAD \<and> \<not> (nx = fst e \<and> ny = snd e)
          then scanDirs c e cur ds queue cf
        else let cf' = cf(k \<mapsto> Some (key c cur)) in
          if nx = fst e \<and> ny = snd e then Inl (k, cf')
          else scanDirs c e cur ds (queue @ [(nx, ny)]) cf')"

text \<open>The keys of the cells of the grid, and those not yet in \<open>cameFrom\<close>.\<close>

definition gridKeys :: "city \<Rightarrow> int set" where
  "gridKeys c = key c ` ({0..<cols c} \<times> {0..<rows c})"

definition unseen :: "city \<Rightarrow> cameFrom \<Rightarrow> int set" where
  "unseen c cf = {k \<in> gridKeys c. cf k = None}"

lemma finite_unseen: "finite (unseen c cf)"
  by (simp add: unseen_def gridKeys_def)

lemma scanDirs_grows:
  "scanDirs c e cur ds queue cf = Inr (queue', cf') \<Longrightarrow>
   length queue' + card (unseen c cf') = length queue + card (unseen c cf)"
proof (induction ds arbitrary: queue cf)
  case Nil
  then show ?case by simp
next
  case (Cons d ds)
  define n where "n = (fst cur + fst d, snd cur + snd d)"
  show ?case
  proof (cases "fst n < 0 \<or> fst n \<ge> cols c \<or> snd n < 0 \<or> snd n \<ge> rows c
                \<or> cf (key c n) \<noteq> None \<or> (tileAt c n \<noteq> ROAD \<and> n \<noteq> e)")
    case True
    then have "scanDirs c e cur (d # ds) queue cf = scanDirs c e cur ds queue cf"
      by (auto simp: n_def Let_def prod_eq_iff)
    with Cons show ?thesis by simp
  next
    case False
    define cf1 where "cf1 = cf(key c n \<mapsto> Some (key c cur))"
    from False have ne: "n \<noteq> e"
      using Cons.prems by (auto simp: n_def Let_def prod_eq_iff split: if_splits)
    from False ne have "scanDirs c e cur (d # ds) queue cf = scanDirs c e cur ds (queue @ [n]) cf1"
      by (auto simp: n_def Let_def prod_eq_iff cf1_def)
    with Cons have "length queue' + card (unseen c cf') = length (queue @ [n]) + card (unseen c cf1)"
      by simp
    moreover have "key c n \<in> unseen c cf"
      using False by (auto simp: unseen_def gridKeys_def mem_Times_iff intro!: image_eqI[where x=n])
    moreover have "unseen c cf1 = unseen c cf - {key c n}"
      by (auto simp: unseen_def cf1_def)
    moreover have "card (unseen c cf - {key c n}) = card (unseen c cf) - 1"
      using \<open>key c n \<in> unseen c cf\<close> finite_unseen[of c cf] by simp
    moreover have "0 < card (unseen c cf)"
      using \<open>key c n \<in> unseen c cf\<close> finite_unseen[of c cf] by (auto simp: card_gt_0_iff)
    ultimately show ?thesis by simp
  qed
qed

text \<open>
  The \<open>while (head < queue.length)\<close> loop.  \<open>Some (k, cameFrom)\<close>: the destination was
  reached; \<open>None\<close>: the queue ran empty.
\<close>

function bfsLoop :: "city \<Rightarrow> cell \<Rightarrow> cell list \<Rightarrow> nat \<Rightarrow> cameFrom \<Rightarrow> (int \<times> cameFrom) option" where
  "bfsLoop c e queue head cf =
     (if head < length queue then
        (case scanDirs c e (queue ! head) dirs queue cf of
           Inl found \<Rightarrow> Some found
         | Inr (queue', cf') \<Rightarrow> bfsLoop c e queue' (Suc head) cf')
      else None)"
  by pat_completeness auto
termination
proof (relation "measure (\<lambda>(c, e, queue, head, cf). length queue + card (unseen c cf) - head)", goal_cases)
  case 1
  show ?case by simp
next
  case (2 c e queue head cf x2 queue' cf')
  then show ?case
    using scanDirs_grows[of c e "queue ! head" dirs queue cf queue' cf'] by simp
qed

declare bfsLoop.simps [simp del]

text \<open>
  The reconstruction loop \<open>while (ck !== null)\<close>.  A key absent from \<open>cameFrom\<close> reads as
  \<open>undefined\<close>, which is not \<open>null\<close>: the JavaScript loop then never ends, which is the
  value \<open>None\<close> here, as is a cycle of parents.
\<close>

partial_function (option) reconstruct :: "int \<Rightarrow> cameFrom \<Rightarrow> int option \<Rightarrow> cell list \<Rightarrow> cell list option" where
  "reconstruct w cf ck path =
     (case ck of None \<Rightarrow> Some path
      | Some k \<Rightarrow> (case cf k of None \<Rightarrow> None
                   | Some parent \<Rightarrow> reconstruct w cf parent ((js_rem k w, k div w) # path)))"

text \<open>
  \<open>findPath\<close>.  The outer option is termination (\<open>None\<close>: the call does not return); the
  inner one is the JavaScript result, \<open>None\<close> for \<open>null\<close>.
\<close>

definition findPath :: "city \<Rightarrow> cell \<Rightarrow> cell \<Rightarrow> cell list option option" where
  "findPath c s e =
     (if fst s = fst e \<and> snd s = snd e then Some (Some [s])
      else case bfsLoop c e [s] 0 ((\<lambda>_. None)(key c s \<mapsto> None)) of
             None \<Rightarrow> Some None
           | Some (k, cf) \<Rightarrow> map_option Some (reconstruct (cols c) cf (Some k) []))"



subsection \<open>Routes\<close>

text \<open>
  Two cells are 4-connected neighbours when they differ by one in exactly one coordinate.
  A cell is walkable road when it lies in the grid and its tile is \<open>ROAD\<close>.  A route
  from \<open>s\<close> to \<open>e\<close> is a non-empty sequence of cells from \<open>s\<close> to \<open>e\<close> whose
  consecutive cells are neighbours and whose cells, other than \<open>s\<close> and \<open>e\<close>, are
  walkable road.  Its hop count is its number of cells minus one.
\<close>

definition adjacent :: "cell \<Rightarrow> cell \<Rightarrow> bool" where
  "adjacent u v \<longleftrightarrow> \<bar>fst u - fst v\<bar> + \<bar>snd u - snd v\<bar> = 1"

definition walkable :: "city \<Rightarrow> cell \<Rightarrow> bool" where
  "walkable c v \<longleftrightarrow> inBounds c v \<and> tileAt c v = ROAD"

definition validRoute :: "city \<Rightarrow> cell \<Rightarrow> cell \<Rightarrow> cell list \<Rightarrow> bool" where
  "validRoute c s e p \<longleftrightarrow>
     p \<noteq> [] \<and> hd p = s \<and> last p = e \<and> successively adjacent p \<and>
     list_all (\<lambda>v. v = s \<or> v = e \<or> walkable c v) p"

definition hops :: "cell list \<Rightarrow> nat" where
  "hops p = length p - 1"

text \<open>
  The graph the search explores: a step enters a cell of the grid that is road, the
  destination or the start.  \<open>walk c s e n v\<close>: \<open>v\<close> is reached from \<open>s\<close> in \<open>n\<close> steps.
\<close>

definition okStep :: "city \<Rightarrow> cell \<Rightarrow> cell \<Rightarrow> cell \<Rightarrow> cell \<Rightarrow> bool" where
  "okStep c s e u v \<longleftrightarrow> adjacent u v \<and> inBounds c v \<and> (tileAt c v = ROAD \<or> v = e \<or> v = s)"

inductive walk :: "city \<Rightarrow> cell \<Rightarrow> cell \<Rightarrow> nat \<Rightarrow> cell \<Rightarrow> bool" for c s e where
  walk0: "walk c s e 0 s"
| walkS: "walk c s e n u \<Longrightarrow> okStep c s e u v \<Longrightarrow> walk c s e (Suc n) v"

lemma key_decode:
  assumes "inBounds c v"
  shows "key c v mod cols c = fst v" "key c v div cols c = snd v" "0 \<le> key c v"
  using assms by (auto simp: key_def inBounds_def)

lemma key_inj: "inBounds c u \<Longrightarrow> inBounds c v \<Longrightarrow> key c u = key c v \<Longrightarrow> u = v"
  using key_decode(1,2)[of c u] key_decode(1,2)[of c v] by (simp add: prod_eq_iff)

lemma js_rem_nonneg: "0 \<le> k \<Longrightarrow> 0 < w \<Longrightarrow> js_rem k w = k mod w"
  by (cases "k = 0") (auto simp: js_rem_def)

lemma adjacent_dirs: "adjacent u v \<longleftrightarrow> (\<exists>d\<in>set dirs. v = (fst u + fst d, snd u + snd d))"
  by (cases u; cases v) (auto simp: adjacent_def dirs_def)

lemma route_walk:
  assumes "inBounds c s" "inBounds c e"
  shows "p \<noteq> [] \<Longrightarrow> hd p = s \<Longrightarrow> successively adjacent p \<Longrightarrow>
         list_all (\<lambda>v. v = s \<or> v = e \<or> walkable c v) p \<Longrightarrow> walk c s e (length p - 1) (last p)"
proof (induction p rule: rev_induct)
  case Nil
  then show ?case by simp
next
  case (snoc x xs)
  show ?case
  proof (cases "xs = []")
    case True
    with snoc.prems show ?thesis by (simp add: walk0)
  next
    case False
    with snoc have w: "walk c s e (length xs - 1) (last xs)"
      by (simp add: successively_append_iff)
    from False snoc.prems have "adjacent (last xs) x"
      by (simp add: successively_append_iff)
    moreover from snoc.prems assms have "inBounds c x \<and> (tileAt c x = ROAD \<or> x = e \<or> x = s)"
      by (auto simp: walkable_def)
    ultimately have "okStep c s e (last xs) x" by (simp add: okStep_def)
    with w have "walk c s e (Suc (length xs - 1)) x" by (rule walkS)
    with False show ?thesis by simp
  qed
qed


subsection \<open>The invariant of the search\<close>

text \<open>
  \<open>ls\<close> is a ghost list: the depth of each queued cell.  The queue holds every visited
  cell once, in the order of discovery, depths never decrease along it, every cell but
  the start has its parent earlier in the queue and one level up, and no walk reaches a
  queued cell in fewer steps than its depth.  For the cell at \<open>head\<close>: every cell before
  it has all its successors queued, the last depth is at most one more than its own, and
  every cell reachable in fewer steps than its depth has been dequeued.
\<close>

definition closedBelow :: "city \<Rightarrow> cell \<Rightarrow> cell \<Rightarrow> cell list \<Rightarrow> nat \<Rightarrow> bool" where
  "closedBelow c s e q head \<longleftrightarrow> (\<forall>i<head. \<forall>v. okStep c s e (q ! i) v \<longrightarrow> v \<in> set q)"

definition bfsInv :: "city \<Rightarrow> cell \<Rightarrow> cell \<Rightarrow> cell list \<Rightarrow> nat list \<Rightarrow> cameFrom \<Rightarrow> bool" where
  "bfsInv c s e q ls cf \<longleftrightarrow>
     length ls = length q \<and> q \<noteq> [] \<and> q ! 0 = s \<and> ls ! 0 = 0 \<and> distinct q \<and>
     (\<forall>v\<in>set q. inBounds c v) \<and>
     (\<forall>v. inBounds c v \<longrightarrow> (cf (key c v) \<noteq> None) = (v \<in> set q)) \<and>
     cf (key c s) = Some None \<and>
     (\<forall>i. 0 < i \<and> i < length q \<longrightarrow>
        (\<exists>j<i. cf (key c (q ! i)) = Some (Some (key c (q ! j))) \<and>
               okStep c s e (q ! j) (q ! i) \<and> ls ! i = Suc (ls ! j))) \<and>
     sorted ls \<and>
     (\<forall>i<length q. \<forall>n. walk c s e n (q ! i) \<longrightarrow> ls ! i \<le> n)"

definition headInv :: "city \<Rightarrow> cell \<Rightarrow> cell \<Rightarrow> cell list \<Rightarrow> nat list \<Rightarrow> nat \<Rightarrow> bool" where
  "headInv c s e q ls head \<longleftrightarrow>
     head < length q \<and> e \<notin> set q \<and> closedBelow c s e q head \<and>
     last ls \<le> Suc (ls ! head) \<and>
     (\<forall>n w. walk c s e n w \<and> n < ls ! head \<longrightarrow> w \<in> set (take head q))"

lemma sorted_le_last: "sorted (ls :: nat list) \<Longrightarrow> y \<in> set ls \<Longrightarrow> y \<le> last ls"
  by (metis in_set_conv_nth last_conv_nth length_pos_if_in_set less_numeral_extra(3)
      list.size(3) sorted_nth_mono Suc_pred less_Suc_eq_le diff_Suc_1 diff_less zero_less_one)

lemma inv_push:
  assumes inv: "bfsInv c s e q ls cf" and hd: "headInv c s e q ls head"
    and ok: "okStep c s e (q ! head) v" and fresh: "cf (key c v) = None"
  shows "bfsInv c s e (q @ [v]) (ls @ [Suc (ls ! head)]) (cf(key c v \<mapsto> Some (key c (q ! head))))"
proof -
  let ?q = "q @ [v]" and ?ls = "ls @ [Suc (ls ! head)]"
  let ?cf = "cf(key c v \<mapsto> Some (key c (q ! head)))"
  from inv have len: "length ls = length q" and ne: "q \<noteq> []" and q0: "q ! 0 = s"
    and l0: "ls ! 0 = 0" and dist: "distinct q" and inb: "\<forall>v\<in>set q. inBounds c v"
    and vis: "\<forall>v. inBounds c v \<longrightarrow> (cf (key c v) \<noteq> None) = (v \<in> set q)"
    and cfs: "cf (key c s) = Some None"
    and par: "\<forall>i. 0 < i \<and> i < length q \<longrightarrow>
        (\<exists>j<i. cf (key c (q ! i)) = Some (Some (key c (q ! j))) \<and>
               okStep c s e (q ! j) (q ! i) \<and> ls ! i = Suc (ls ! j))"
    and srt: "sorted ls"
    and low: "\<forall>i<length q. \<forall>n. walk c s e n (q ! i) \<longrightarrow> ls ! i \<le> n"
    unfolding bfsInv_def by blast+
  from hd have hlt: "head < length q" and clo: "closedBelow c s e q head"
    and lastle: "last ls \<le> Suc (ls ! head)"
    and early: "\<forall>n w. walk c s e n w \<and> n < ls ! head \<longrightarrow> w \<in> set (take head q)"
    unfolding headInv_def by blast+
  from ok have vin: "inBounds c v" by (simp add: okStep_def)
  have vnot: "v \<notin> set q" using vis[rule_format, OF vin] fresh by simp
  have sin: "s \<in> set q" using ne q0 by (metis length_greater_0_conv nth_mem)
  have keyne: "\<And>w. w \<in> set q \<Longrightarrow> key c w \<noteq> key c v"
    using key_inj[OF _ vin] inb vnot by blast
  have c1: "length ?ls = length ?q" using len by simp
  have c3: "?q ! 0 = s" using ne q0 by (simp add: nth_append)
  have c4: "?ls ! 0 = 0" using ne len l0 by (simp add: nth_append)
  have c5: "distinct ?q" using dist vnot by simp
  have c6: "\<forall>w\<in>set ?q. inBounds c w" using inb vin by simp
  have c7: "\<forall>w. inBounds c w \<longrightarrow> (?cf (key c w) \<noteq> None) = (w \<in> set ?q)"
    using vis key_inj[OF _ vin] by auto
  have c8: "?cf (key c s) = Some None" using cfs keyne[OF sin] by simp
  have c9: "\<forall>i. 0 < i \<and> i < length ?q \<longrightarrow>
        (\<exists>j<i. ?cf (key c (?q ! i)) = Some (Some (key c (?q ! j))) \<and>
               okStep c s e (?q ! j) (?q ! i) \<and> ?ls ! i = Suc (?ls ! j))"
  proof (intro allI impI)
    fix i assume i: "0 < i \<and> i < length ?q"
    show "\<exists>j<i. ?cf (key c (?q ! i)) = Some (Some (key c (?q ! j))) \<and>
               okStep c s e (?q ! j) (?q ! i) \<and> ?ls ! i = Suc (?ls ! j)"
    proof (cases "i < length q")
      case True
      with i par obtain j where j: "j < i" "cf (key c (q ! i)) = Some (Some (key c (q ! j)))"
        "okStep c s e (q ! j) (q ! i)" "ls ! i = Suc (ls ! j)" by blast
      from True have "key c (q ! i) \<noteq> key c v" using keyne by simp
      with j True len show ?thesis
        by (intro exI[of _ j]) (simp add: nth_append)
    next
      case False
      with i have "i = length q" by simp
      with hlt ok len show ?thesis
        by (intro exI[of _ head]) (simp add: nth_append)
    qed
  qed
  have c10: "sorted ?ls"
    using srt lastle sorted_le_last[OF srt] by (auto simp: sorted_append intro: order_trans)
  have c11: "\<forall>i<length ?q. \<forall>n. walk c s e n (?q ! i) \<longrightarrow> ?ls ! i \<le> n"
  proof (intro allI impI)
    fix i n assume i: "i < length ?q" and w: "walk c s e n (?q ! i)"
    show "?ls ! i \<le> n"
    proof (cases "i < length q")
      case True
      with low w len show ?thesis by (simp add: nth_append)
    next
      case False
      with i have ieq: "i = length q" by simp
      with w have wv: "walk c s e n v" by simp
      have "Suc (ls ! head) \<le> n"
        using wv
      proof (cases rule: walk.cases)
        case walk0
        with sin vnot show ?thesis by simp
      next
        case (walkS m u)
        have "\<not> m < ls ! head"
        proof
          assume "m < ls ! head"
          with early walkS(2) have "u \<in> set (take head q)" by blast
          then obtain k where "k < head" "u = q ! k"
            using hlt by (auto simp: in_set_conv_nth)
          with clo walkS(3) have "v \<in> set q" unfolding closedBelow_def by blast
          with vnot show False by simp
        qed
        with walkS(1) show ?thesis by simp
      qed
      with ieq len show ?thesis by (simp add: nth_append)
    qed
  qed
  show ?thesis
    unfolding bfsInv_def using c1 c3 c4 c5 c6 c7 c8 c9 c10 c11 by blast
qed

lemma head_push:
  assumes inv: "bfsInv c s e q ls cf" and hd: "headInv c s e q ls head" and "v \<noteq> e"
  shows "headInv c s e (q @ [v]) (ls @ [Suc (ls ! head)]) head"
proof -
  from inv have len: "length ls = length q" unfolding bfsInv_def by blast
  from hd have hlt: "head < length q" unfolding headInv_def by blast
  have "closedBelow c s e (q @ [v]) head"
    using hd hlt unfolding headInv_def closedBelow_def by (auto simp: nth_append)
  with hd hlt len assms(3) show ?thesis
    unfolding headInv_def by (simp add: nth_append)
qed


lemma start_in_queue: "bfsInv c s e q ls cf \<Longrightarrow> s \<in> set q"
  unfolding bfsInv_def by (metis length_greater_0_conv nth_mem)

lemma scanDirs_inv:
  "bfsInv c s e q ls cf \<Longrightarrow> headInv c s e q ls head \<Longrightarrow> cur = q ! head \<Longrightarrow>
   set ds \<subseteq> set dirs \<Longrightarrow>
   (case scanDirs c e cur ds q cf of
      Inl (k, cf') \<Rightarrow> k = key c e \<and> (\<exists>q' ls'. bfsInv c s e (q' @ [e]) ls' cf')
    | Inr (q', cf') \<Rightarrow>
        (\<exists>ls'. bfsInv c s e q' ls' cf' \<and> headInv c s e q' ls' head) \<and> q' ! head = cur \<and>
        set q \<subseteq> set q' \<and>
        (\<forall>d\<in>set ds. okStep c s e cur (fst cur + fst d, snd cur + snd d)
            \<longrightarrow> (fst cur + fst d, snd cur + snd d) \<in> set q'))"
proof (induction ds arbitrary: q ls cf)
  case Nil
  then show ?case by auto
next
  case (Cons d ds)
  define n where "n = (fst cur + fst d, snd cur + snd d)"
  from Cons.prems have sub: "set ds \<subseteq> set dirs" and din: "d \<in> set dirs" by auto
  from din have adj: "adjacent cur n"
    unfolding adjacent_dirs n_def by blast
  from Cons.prems(1) have vis: "\<forall>v. inBounds c v \<longrightarrow> (cf (key c v) \<noteq> None) = (v \<in> set q)"
    unfolding bfsInv_def by blast
  show ?case
  proof (cases "fst n < 0 \<or> fst n \<ge> cols c \<or> snd n < 0 \<or> snd n \<ge> rows c
                \<or> cf (key c n) \<noteq> None \<or> (tileAt c n \<noteq> ROAD \<and> n \<noteq> e)")
    case True
    then have eq: "scanDirs c e cur (d # ds) q cf = scanDirs c e cur ds q cf"
      by (auto simp: n_def Let_def prod_eq_iff)
    have here: "okStep c s e cur n \<Longrightarrow> n \<in> set q"
    proof -
      assume o: "okStep c s e cur n"
      then have nin: "inBounds c n" by (simp add: okStep_def)
      show "n \<in> set q"
      proof (cases "cf (key c n) \<noteq> None")
        case True
        with vis nin show ?thesis by blast
      next
        case False
        with True nin have "tileAt c n \<noteq> ROAD \<and> n \<noteq> e" by (auto simp: inBounds_def)
        with o have "n = s" by (auto simp: okStep_def)
        with start_in_queue[OF Cons.prems(1)] show ?thesis by simp
      qed
    qed
    from Cons.IH[OF Cons.prems(1,2,3) sub] here show ?thesis
      unfolding eq n_def[symmetric]
      by (auto split: sum.splits simp: n_def[symmetric])
  next
    case False
    define cf1 where "cf1 = cf(key c n \<mapsto> Some (key c cur))"
    from False adj have ok: "okStep c s e (q ! head) n"
      using Cons.prems(3) by (auto simp: okStep_def inBounds_def)
    from False have fresh: "cf (key c n) = None" by simp
    note push = inv_push[OF Cons.prems(1,2) ok fresh]
    show ?thesis
    proof (cases "n = e")
      case True
      with False have "scanDirs c e cur (d # ds) q cf = Inl (key c n, cf1)"
        by (auto simp: n_def Let_def prod_eq_iff cf1_def)
      with push True Cons.prems(3) show ?thesis
        by (auto simp: cf1_def)
    next
      case ne: False
      with False have eq: "scanDirs c e cur (d # ds) q cf = scanDirs c e cur ds (q @ [n]) cf1"
        by (auto simp: n_def Let_def prod_eq_iff cf1_def)
      from Cons.prems(2) have hlt: "head < length q" unfolding headInv_def by blast
      have cur': "cur = (q @ [n]) ! head" using Cons.prems(3) hlt by (simp add: nth_append)
      from push have push': "bfsInv c s e (q @ [n]) (ls @ [Suc (ls ! head)]) cf1"
        using Cons.prems(3) by (simp add: cf1_def)
      from Cons.IH[OF push' head_push[OF Cons.prems(1,2) ne] cur' sub]
      show ?thesis
        unfolding eq n_def[symmetric]
        by (auto split: sum.splits simp: n_def[symmetric])
    qed
  qed
qed

lemma head_advance:
  assumes inv: "bfsInv c s e q ls cf" and hd: "headInv c s e q ls head"
    and all: "\<forall>v. okStep c s e (q ! head) v \<longrightarrow> v \<in> set q"
  shows "closedBelow c s e q (Suc head)"
    and "Suc head < length q \<Longrightarrow> headInv c s e q ls (Suc head)"
proof -
  from inv have len: "length ls = length q" and q0: "q ! 0 = s" and srt: "sorted ls"
    and low: "\<forall>i<length q. \<forall>n. walk c s e n (q ! i) \<longrightarrow> ls ! i \<le> n"
    unfolding bfsInv_def by blast+
  from hd have hlt: "head < length q" and enot: "e \<notin> set q" and clo: "closedBelow c s e q head"
    and lastle: "last ls \<le> Suc (ls ! head)"
    and early: "\<forall>n w. walk c s e n w \<and> n < ls ! head \<longrightarrow> w \<in> set (take head q)"
    unfolding headInv_def by blast+
  show clo': "closedBelow c s e q (Suc head)"
    using clo all unfolding closedBelow_def by (auto simp: less_Suc_eq)
  assume sh: "Suc head < length q"
  have mono: "ls ! head \<le> ls ! Suc head"
    using srt sh len by (simp add: sorted_nth_mono)
  have lastle': "last ls \<le> Suc (ls ! Suc head)" using lastle mono by simp
  have shle: "ls ! Suc head \<le> Suc (ls ! head)"
    using sorted_le_last[OF srt, of "ls ! Suc head"] sh len lastle by simp
  have early': "\<forall>n w. walk c s e n w \<and> n < ls ! Suc head \<longrightarrow> w \<in> set (take (Suc head) q)"
  proof (intro allI impI)
    fix n w assume a: "walk c s e n w \<and> n < ls ! Suc head"
    show "w \<in> set (take (Suc head) q)"
    proof (cases "n < ls ! head")
      case True
      with a early have "w \<in> set (take head q)" by blast
      then show ?thesis by (meson set_take_subset_set_take le_SucI order_refl subsetD)
    next
      case False
      from a have "walk c s e n w" by simp
      then have "w \<in> set q"
      proof (cases rule: walk.cases)
        case walk0
        with start_in_queue[OF inv] show ?thesis by simp
      next
        case (walkS m u)
        from a shle walkS(1) have "m < ls ! head" using False by simp
        with early walkS(2) have "u \<in> set (take head q)" by blast
        then obtain k where "k < head" "u = q ! k"
          using hlt by (auto simp: in_set_conv_nth)
        with clo walkS(3) show ?thesis unfolding closedBelow_def by blast
      qed
      then obtain i where i: "i < length q" "w = q ! i" by (auto simp: in_set_conv_nth)
      with low a have "ls ! i \<le> n" by blast
      with a have "ls ! i < ls ! Suc head" by simp
      have "i < Suc head"
      proof (rule ccontr)
        assume "\<not> i < Suc head"
        then have "Suc head \<le> i" by simp
        with srt i(1) len have "ls ! Suc head \<le> ls ! i" by (simp add: sorted_nth_mono)
        with \<open>ls ! i < ls ! Suc head\<close> show False by simp
      qed
      with i sh show ?thesis by (auto simp: in_set_conv_nth intro!: exI[of _ i])
    qed
  qed
  show "headInv c s e q ls (Suc head)"
    unfolding headInv_def using sh enot clo' lastle' early' by blast
qed

lemma closed_walk:
  assumes inv: "bfsInv c s e q ls cf" and clo: "closedBelow c s e q (length q)"
  shows "walk c s e n w \<Longrightarrow> w \<in> set q"
proof (induction rule: walk.induct)
  case walk0
  show ?case by (rule start_in_queue[OF inv])
next
  case (walkS n u v)
  then obtain i where "i < length q" "u = q ! i" by (auto simp: in_set_conv_nth)
  with clo walkS(2) show ?case unfolding closedBelow_def by blast
qed

lemma bfsLoop_inv:
  "bfsInv c s e q ls cf \<Longrightarrow> e \<notin> set q \<Longrightarrow> head \<le> length q \<Longrightarrow> closedBelow c s e q head \<Longrightarrow>
   (head < length q \<Longrightarrow> headInv c s e q ls head) \<Longrightarrow>
   (case bfsLoop c e q head cf of
      None \<Rightarrow> (\<forall>n. \<not> walk c s e n e)
    | Some (k, cf') \<Rightarrow> k = key c e \<and> (\<exists>q' ls'. bfsInv c s e (q' @ [e]) ls' cf'))"
proof (induction c e q head cf arbitrary: ls rule: bfsLoop.induct)
  case (1 c e q head cf)
  show ?case
  proof (cases "head < length q")
    case False
    with 1(4) have "head = length q" by simp
    with 1(5) have "closedBelow c s e q (length q)" by simp
    from closed_walk[OF 1(2) this] 1(3) have "\<forall>n. \<not> walk c s e n e" by blast
    with False show ?thesis by (subst bfsLoop.simps) simp
  next
    case True
    note hi = 1(6)[OF True]
    note sd = scanDirs_inv[OF 1(2) hi refl subset_refl]
    show ?thesis
    proof (cases "scanDirs c e (q ! head) dirs q cf")
      case (Inl found)
      with sd True show ?thesis
        by (subst bfsLoop.simps) (auto split: prod.splits)
    next
      case (Inr st)
      obtain q' cf' where st: "st = (q', cf')" by (cases st)
      from sd Inr st obtain ls' where inv': "bfsInv c s e q' ls' cf'"
        and hi': "headInv c s e q' ls' head" and cur: "q' ! head = q ! head"
        and all0: "\<forall>d\<in>set dirs. okStep c s e (q ! head) (fst (q ! head) + fst d, snd (q ! head) + snd d)
            \<longrightarrow> (fst (q ! head) + fst d, snd (q ! head) + snd d) \<in> set q'"
        by auto
      have all: "\<forall>v. okStep c s e (q' ! head) v \<longrightarrow> v \<in> set q'"
        using all0 cur by (auto simp: okStep_def adjacent_dirs)
      from hi' have enot: "e \<notin> set q'" and hlt: "head < length q'" unfolding headInv_def by blast+
      have "case bfsLoop c e q' (Suc head) cf' of
              None \<Rightarrow> (\<forall>n. \<not> walk c s e n e)
            | Some (k, cf') \<Rightarrow> k = key c e \<and> (\<exists>q' ls'. bfsInv c s e (q' @ [e]) ls' cf')"
        using "1.IH"[OF True Inr st[symmetric] inv' enot _ head_advance(1)[OF inv' hi' all]
                     head_advance(2)[OF inv' hi' all]] hlt
        by simp
      with True Inr st show ?thesis by (subst bfsLoop.simps) simp
    qed
  qed
qed


lemma bfsInv_init:
  assumes "inBounds c s"
  shows "bfsInv c s e [s] [0] ((\<lambda>_. None)(key c s \<mapsto> None))"
  unfolding bfsInv_def using assms key_inj[OF _ assms] by auto

lemma headInv_init: "s \<noteq> e \<Longrightarrow> headInv c s e [s] [0] 0"
  unfolding headInv_def closedBelow_def by simp

lemma reconstruct_root:
  "cf k = Some None \<Longrightarrow> reconstruct w cf (Some k) acc = Some ((js_rem k w, k div w) # acc)"
  by (subst reconstruct.simps, simp, subst reconstruct.simps, simp)

lemma reconstruct_child:
  "cf k = Some (Some p) \<Longrightarrow>
   reconstruct w cf (Some k) acc = reconstruct w cf (Some p) ((js_rem k w, k div w) # acc)"
  by (subst reconstruct.simps) simp

lemma decode_key: "inBounds c v \<Longrightarrow> (js_rem (key c v) (cols c), key c v div cols c) = v"
  using key_decode[of c v] js_rem_nonneg[of "key c v" "cols c"]
  by (auto simp: inBounds_def prod_eq_iff)

lemma reconstruct_inv:
  assumes inv: "bfsInv c s e q ls cf"
  shows "i < length q \<Longrightarrow>
     \<exists>p. (\<forall>acc. reconstruct (cols c) cf (Some (key c (q ! i))) acc = Some (p @ acc)) \<and>
         length p = Suc (ls ! i) \<and> p \<noteq> [] \<and> hd p = s \<and> last p = q ! i \<and>
         successively (okStep c s e) p"
proof (induction i rule: less_induct)
  case (less i)
  from inv have q0: "q ! 0 = s" and l0: "ls ! 0 = 0" and inb: "\<forall>v\<in>set q. inBounds c v"
    and cfs: "cf (key c s) = Some None"
    and par: "\<forall>i. 0 < i \<and> i < length q \<longrightarrow>
        (\<exists>j<i. cf (key c (q ! i)) = Some (Some (key c (q ! j))) \<and>
               okStep c s e (q ! j) (q ! i) \<and> ls ! i = Suc (ls ! j))"
    unfolding bfsInv_def by blast+
  from less.prems inb have dec: "(js_rem (key c (q ! i)) (cols c), key c (q ! i) div cols c) = q ! i"
    by (simp add: decode_key)
  show ?case
  proof (cases "i = 0")
    case True
    with q0 cfs dec have "\<forall>acc. reconstruct (cols c) cf (Some (key c (q ! i))) acc = Some ([s] @ acc)"
      by (simp add: reconstruct_root)
    with True q0 l0 show ?thesis
      by (intro exI[of _ "[s]"]) simp
  next
    case False
    with less.prems par obtain j where j: "j < i"
      "cf (key c (q ! i)) = Some (Some (key c (q ! j)))"
      "okStep c s e (q ! j) (q ! i)" "ls ! i = Suc (ls ! j)" by blast
    from less.IH[OF j(1)] j(1) less.prems obtain p where
      p: "\<forall>acc. reconstruct (cols c) cf (Some (key c (q ! j))) acc = Some (p @ acc)"
      "length p = Suc (ls ! j)" "p \<noteq> []" "hd p = s" "last p = q ! j"
      "successively (okStep c s e) p" by auto
    have "\<forall>acc. reconstruct (cols c) cf (Some (key c (q ! i))) acc = Some ((p @ [q ! i]) @ acc)"
      using p(1) dec j(2) by (simp add: reconstruct_child)
    moreover have "successively (okStep c s e) (p @ [q ! i])"
      using p(3,5,6) j(3) by (simp add: successively_append_iff)
    ultimately show ?thesis
      using p(2,3,4) j(4) by (intro exI[of _ "p @ [q ! i]"]) simp
  qed
qed

lemma okSteps_cells:
  "successively (okStep c s e) p \<Longrightarrow> v \<in> set (tl p) \<Longrightarrow>
   inBounds c v \<and> (tileAt c v = ROAD \<or> v = e \<or> v = s)"
proof (induction p rule: induct_list012)
  case 1
  then show ?case by simp
next
  case (2 x)
  then show ?case by simp
next
  case (3 x y zs)
  then show ?case by (auto simp: okStep_def)
qed

lemma okSteps_route:
  assumes "successively (okStep c s e) p" "p \<noteq> []" "hd p = s" "last p = e"
  shows "validRoute c s e p"
proof -
  have "successively adjacent p"
    using assms(1) by (rule successively_mono) (simp add: okStep_def)
  moreover have "\<forall>v\<in>set p. v = s \<or> v = e \<or> walkable c v"
  proof
    fix v assume "v \<in> set p"
    with assms(2,3) have "v = s \<or> v \<in> set (tl p)" by (cases p) auto
    with okSteps_cells[OF assms(1), of v] show "v = s \<or> v = e \<or> walkable c v"
      unfolding walkable_def by blast
  qed
  ultimately show ?thesis
    using assms by (simp add: validRoute_def list_all_iff)
qed

lemma findPath_distinct:
  "s \<noteq> e \<Longrightarrow> findPath c s e =
     (case bfsLoop c e [s] 0 ((\<lambda>_. None)(key c s \<mapsto> None)) of
        None \<Rightarrow> Some None
      | Some (k, cf) \<Rightarrow> map_option Some (reconstruct (cols c) cf (Some k) []))"
  by (auto simp: findPath_def prod_eq_iff)

lemma findPath_result:
  assumes s: "inBounds c s" and e: "inBounds c e"
  shows "\<exists>r. findPath c s e = Some r \<and>
          (case r of
             Some p \<Rightarrow> validRoute c s e p \<and> (\<forall>p'. validRoute c s e p' \<longrightarrow> length p \<le> length p')
           | None \<Rightarrow> (\<forall>p'. \<not> validRoute c s e p'))"
proof (cases "s = e")
  case True
  then have "findPath c s e = Some (Some [s])" by (simp add: findPath_def)
  moreover have "validRoute c s e [s]" using True by (simp add: validRoute_def)
  moreover have "\<forall>p'. validRoute c s e p' \<longrightarrow> length [s] \<le> length p'"
    by (auto simp: validRoute_def Suc_le_eq)
  ultimately show ?thesis by simp
next
  case False
  let ?cf0 = "(\<lambda>_. None)(key c s \<mapsto> None)"
  note neq = findPath_distinct[OF False]
  have walks: "\<And>p'. validRoute c s e p' \<Longrightarrow> walk c s e (length p' - 1) e"
  proof -
    fix p' assume "validRoute c s e p'"
    then show "walk c s e (length p' - 1) e"
      using route_walk[OF s e, of p'] by (simp add: validRoute_def)
  qed
  have loop: "case bfsLoop c e [s] 0 ?cf0 of
      None \<Rightarrow> (\<forall>n. \<not> walk c s e n e)
    | Some (k, cf') \<Rightarrow> k = key c e \<and> (\<exists>q' ls'. bfsInv c s e (q' @ [e]) ls' cf')"
    using bfsLoop_inv[of c s e "[s]" "[0]" ?cf0 0] bfsInv_init[OF s, of e] headInv_init[OF False, of c]
      False by (simp add: closedBelow_def)
  show ?thesis
  proof (cases "bfsLoop c e [s] 0 ?cf0")
    case None
    with loop have "\<forall>n. \<not> walk c s e n e" by simp
    with walks have "\<forall>p'. \<not> validRoute c s e p'" by blast
    with None neq show ?thesis by simp
  next
    case (Some found)
    obtain k cf where found: "found = (k, cf)" by (cases found)
    with loop Some obtain q ls where k: "k = key c e" and inv: "bfsInv c s e (q @ [e]) ls cf"
      by auto
    from reconstruct_inv[OF inv, of "length q"] obtain p where
      p: "reconstruct (cols c) cf (Some (key c e)) [] = Some p"
      "length p = Suc (ls ! length q)" "p \<noteq> []" "hd p = s" "last p = e"
      "successively (okStep c s e) p" by auto
    from inv have low: "\<forall>n. walk c s e n e \<longrightarrow> ls ! length q \<le> n"
      unfolding bfsInv_def by (metis length_append_singleton lessI nth_append_length)
    have "findPath c s e = Some (Some p)"
      using neq Some found k p(1) by simp
    moreover have "validRoute c s e p" using okSteps_route[OF p(6,3,4,5)] .
    moreover have "\<forall>p'. validRoute c s e p' \<longrightarrow> length p \<le> length p'"
    proof (intro allI impI)
      fix p' assume v: "validRoute c s e p'"
      from walks[OF v] low have "ls ! length q \<le> length p' - 1" by blast
      moreover from v have "p' \<noteq> []" by (simp add: validRoute_def)
      ultimately show "length p \<le> length p'" using p(2) by (cases p') auto
    qed
    ultimately show ?thesis by simp
  qed
qed


subsection \<open>The router returns\<close>

text \<open>Every key of \<open>cameFrom\<close> leads to the start through its parents.\<close>

inductive rooted :: "cameFrom \<Rightarrow> int \<Rightarrow> bool" for cf where
  rootedNull: "cf k = Some None \<Longrightarrow> rooted cf k"
| rootedStep: "cf k = Some (Some p) \<Longrightarrow> rooted cf p \<Longrightarrow> rooted cf k"

lemma rooted_reconstruct: "rooted cf k \<Longrightarrow> \<exists>r. reconstruct w cf (Some k) acc = Some r"
proof (induction arbitrary: acc rule: rooted.induct)
  case (rootedNull k)
  then show ?case by (simp add: reconstruct_root)
next
  case (rootedStep k p)
  then show ?case by (simp add: reconstruct_child)
qed

lemma rooted_update: "rooted cf k \<Longrightarrow> cf k' = None \<Longrightarrow> rooted (cf(k' \<mapsto> x)) k"
proof (induction rule: rooted.induct)
  case (rootedNull k)
  then have "(cf(k' \<mapsto> x)) k = Some None" by auto
  then show ?case by (rule rooted.rootedNull)
next
  case (rootedStep k p)
  then have "(cf(k' \<mapsto> x)) k = Some (Some p)" by auto
  with rootedStep show ?case by (auto intro: rooted.rootedStep)
qed

lemma scanDirs_rooted:
  "\<forall>v\<in>set q. rooted cf (key c v) \<Longrightarrow> cur \<in> set q \<Longrightarrow>
   (case scanDirs c e cur ds q cf of
      Inl (k, cf') \<Rightarrow> rooted cf' k
    | Inr (q', cf') \<Rightarrow> (\<forall>v\<in>set q'. rooted cf' (key c v)))"
proof (induction ds arbitrary: q cf)
  case Nil
  then show ?case by simp
next
  case (Cons d ds)
  define n where "n = (fst cur + fst d, snd cur + snd d)"
  show ?case
  proof (cases "fst n < 0 \<or> fst n \<ge> cols c \<or> snd n < 0 \<or> snd n \<ge> rows c
                \<or> cf (key c n) \<noteq> None \<or> (tileAt c n \<noteq> ROAD \<and> n \<noteq> e)")
    case True
    then have "scanDirs c e cur (d # ds) q cf = scanDirs c e cur ds q cf"
      by (auto simp: n_def Let_def prod_eq_iff)
    with Cons.IH[OF Cons.prems] show ?thesis by simp
  next
    case False
    define cf1 where "cf1 = cf(key c n \<mapsto> Some (key c cur))"
    from False have fresh: "cf (key c n) = None" by simp
    have old: "\<forall>v\<in>set q. rooted cf1 (key c v)"
      using Cons.prems(1) fresh by (simp add: cf1_def rooted_update)
    with Cons.prems(2) have "rooted cf1 (key c cur)" by simp
    then have new: "rooted cf1 (key c n)"
      by (intro rootedStep[of cf1 "key c n" "key c cur"]) (simp add: cf1_def)
    show ?thesis
    proof (cases "n = e")
      case True
      with False have "scanDirs c e cur (d # ds) q cf = Inl (key c n, cf1)"
        by (auto simp: n_def Let_def prod_eq_iff cf1_def)
      with new show ?thesis by simp
    next
      case ne: False
      with False have "scanDirs c e cur (d # ds) q cf = scanDirs c e cur ds (q @ [n]) cf1"
        by (auto simp: n_def Let_def prod_eq_iff cf1_def)
      with Cons.IH[of "q @ [n]" cf1] old new Cons.prems(2) show ?thesis by simp
    qed
  qed
qed

lemma bfsLoop_rooted:
  "\<forall>v\<in>set q. rooted cf (key c v) \<Longrightarrow> bfsLoop c e q head cf = Some (k, cf') \<Longrightarrow> rooted cf' k"
proof (induction c e q head cf rule: bfsLoop.induct)
  case (1 c e q head cf)
  show ?case
  proof (cases "head < length q")
    case False
    with 1(3) show ?thesis by (subst (asm) bfsLoop.simps) simp
  next
    case True
    note sd = scanDirs_rooted[OF 1(2), of "q ! head" e dirs]
    show ?thesis
    proof (cases "scanDirs c e (q ! head) dirs q cf")
      case (Inl found)
      with 1(3) True have "found = (k, cf')" by (subst (asm) bfsLoop.simps) simp
      with sd Inl True show ?thesis by simp
    next
      case (Inr st)
      obtain q' cf1 where st: "st = (q', cf1)" by (cases st)
      with 1(3) True Inr have "bfsLoop c e q' (Suc head) cf1 = Some (k, cf')"
        by (subst (asm) bfsLoop.simps) simp
      moreover from sd Inr st True have "\<forall>v\<in>set q'. rooted cf1 (key c v)" by simp
      ultimately show ?thesis using "1.IH"[OF True Inr st[symmetric]] by blast
    qed
  qed
qed

lemma findPath_total: "\<exists>r. findPath c s e = Some r"
proof (cases "s = e")
  case True
  then show ?thesis by (simp add: findPath_def)
next
  case False
  show ?thesis
  proof (cases "bfsLoop c e [s] 0 ((\<lambda>_. None)(key c s \<mapsto> None))")
    case None
    then show ?thesis by (simp add: findPath_distinct[OF False])
  next
    case (Some found)
    obtain k cf where found: "found = (k, cf)" by (cases found)
    have "\<forall>v\<in>set [s]. rooted ((\<lambda>_. None)(key c s \<mapsto> None)) (key c v)"
      by (simp add: rootedNull)
    from bfsLoop_rooted[OF this] Some found have "rooted cf k" by simp
    from rooted_reconstruct[OF this, of "cols c" "[]"] Some found show ?thesis
      by (auto simp: findPath_distinct[OF False])
  qed
qed

subsection \<open>Routes read backwards\<close>

lemma adjacent_sym: "adjacent u v = adjacent v u"
  by (auto simp: adjacent_def)

lemma validRoute_rev:
  assumes "validRoute c s e p"
  shows "validRoute c e s (rev p)"
proof -
  from assms have "successively adjacent p" by (simp add: validRoute_def)
  then have "successively (\<lambda>x y. adjacent y x) p"
    by (rule successively_mono) (simp add: adjacent_sym)
  then have "successively adjacent (rev p)" by simp
  with assms show ?thesis
    by (auto simp: validRoute_def hd_rev last_rev list_all_iff)
qed

lemma findPath_sym_len:
  assumes "inBounds c a" "inBounds c b"
    and ab: "findPath c a b = Some (Some p)" and ba: "findPath c b a = Some (Some p')"
  shows "length p = length p'"
proof -
  from findPath_result[OF assms(1,2)] ab have
    p: "validRoute c a b p" "\<forall>q. validRoute c a b q \<longrightarrow> length p \<le> length q" by auto
  from findPath_result[OF assms(2,1)] ba have
    p': "validRoute c b a p'" "\<forall>q. validRoute c b a q \<longrightarrow> length p' \<le> length q" by auto
  from p(2) validRoute_rev[OF p'(1)] have "length p \<le> length p'" by fastforce
  moreover from p'(2) validRoute_rev[OF p(1)] have "length p' \<le> length p" by fastforce
  ultimately show ?thesis by simp
qed


subsection \<open>A small city for the examples\<close>

definition city3 :: city where
  "city3 = \<lparr> cols = 3, rows = 3,
     grid = [[HOUSE, ROAD, BUSINESS], [EMPTY, ROAD, EMPTY], [EATERY, ROAD, LEISURE]],
     tileNames = (\<lambda>_. None) \<rparr>"

declare reconstruct.simps [code]

lemma city3_wf: "city_wf city3"
  by (simp add: city_wf_def city3_def)

lemma city3_route: "findPath city3 (0, 0) (2, 2) = Some (Some [(0, 0), (1, 0), (1, 1), (1, 2), (2, 2)])"
  by code_simp

lemma city3_route_back: "findPath city3 (2, 2) (0, 0) = Some (Some [(2, 2), (1, 2), (1, 1), (1, 0), (0, 0)])"
  by code_simp

section \<open>Properties of the router\<close>

text \<open>
  C1.  For a city grid and two cells \<open>s\<close> and \<open>e\<close> of it, \<open>findPath\<close> returns.  If it
  returns a sequence, the sequence is a route from \<open>s\<close> to \<open>e\<close> (it begins at \<open>s\<close>, ends at
  \<open>e\<close>, consecutive cells are 4-connected neighbours, every cell other than \<open>s\<close> and \<open>e\<close>
  is walkable road) and no route from \<open>s\<close> to \<open>e\<close> has fewer hops; if it returns
  \<open>null\<close>, there is no route from \<open>s\<close> to \<open>e\<close>.
\<close>

theorem findPath_shortest_route:
  assumes "city_wf c" and "inBounds c s" and "inBounds c e"
  shows "\<exists>r. findPath c s e = Some r \<and>
          (case r of
             Some p \<Rightarrow> validRoute c s e p \<and> (\<forall>p'. validRoute c s e p' \<longrightarrow> hops p \<le> hops p')
           | None \<Rightarrow> (\<forall>p'. \<not> validRoute c s e p'))"
proof -
  from findPath_result[OF assms(2,3)] obtain r where
    r: "findPath c s e = Some r"
       "case r of
          Some p \<Rightarrow> validRoute c s e p \<and> (\<forall>p'. validRoute c s e p' \<longrightarrow> length p \<le> length p')
        | None \<Rightarrow> (\<forall>p'. \<not> validRoute c s e p')"
    by blast
  show ?thesis
  proof (cases r)
    case None
    with r show ?thesis by simp
  next
    case (Some p)
    with r have "validRoute c s e p" and "\<forall>p'. validRoute c s e p' \<longrightarrow> length p \<le> length p'"
      by simp_all
    then have "\<forall>p'. validRoute c s e p' \<longrightarrow> hops p \<le> hops p'"
      by (auto simp: hops_def intro: diff_le_mono)
    with r Some \<open>validRoute c s e p\<close> show ?thesis by simp
  qed
qed

theorem findPath_shortest_route_witness:
  "city_wf city3 \<and> inBounds city3 (0, 0) \<and> inBounds city3 (2, 2) \<and>
   findPath city3 (0, 0) (2, 2) = Some (Some [(0, 0), (1, 0), (1, 1), (1, 2), (2, 2)]) \<and>
   validRoute city3 (0, 0) (2, 2) [(0, 0), (1, 0), (1, 1), (1, 2), (2, 2)] \<and>
   hops [(0, 0), (1, 0), (1, 1), (1, 2), (2, 2)] \<le> hops [(0, 0), (1, 0), (1, 1), (1, 2), (2, 2), (1, 2), (2, 2)]"
proof -
  have b: "inBounds city3 (0, 0)" "inBounds city3 (2, 2)"
    by (simp_all add: inBounds_def city3_def)
  from findPath_shortest_route[OF city3_wf b] city3_route
  have "validRoute city3 (0, 0) (2, 2) [(0, 0), (1, 0), (1, 1), (1, 2), (2, 2)]"
    and "\<forall>p'. validRoute city3 (0, 0) (2, 2) p' \<longrightarrow> hops [(0, 0), (1, 0), (1, 1), (1, 2), (2, 2)] \<le> hops p'"
    by simp_all
  moreover have "validRoute city3 (0, 0) (2, 2) [(0, 0), (1, 0), (1, 1), (1, 2), (2, 2), (1, 2), (2, 2)]"
    by (simp add: validRoute_def adjacent_def walkable_def inBounds_def tileAt_def city3_def)
  ultimately show ?thesis using city3_wf b city3_route by blast
qed

text \<open>
  C8.  The router is a function of the city, the start and the end, so its results are
  deterministic; and when \<open>findPath\<close> returns a path from \<open>a\<close> to \<open>b\<close> and a path from \<open>b\<close>
  to \<open>a\<close>, for two cells of the grid, the two paths have the same hop count.
\<close>

theorem findPath_symmetric_hops:
  assumes "city_wf c" and "inBounds c a" and "inBounds c b"
    and "findPath c a b = Some (Some p)" and "findPath c b a = Some (Some p')"
  shows "hops p = hops p'"
  using findPath_sym_len[OF assms(2-5)] by (simp add: hops_def)

theorem findPath_symmetric_hops_witness:
  "city_wf city3 \<and> inBounds city3 (0, 0) \<and> inBounds city3 (2, 2) \<and>
   findPath city3 (0, 0) (2, 2) = Some (Some [(0, 0), (1, 0), (1, 1), (1, 2), (2, 2)]) \<and>
   findPath city3 (2, 2) (0, 0) = Some (Some [(2, 2), (1, 2), (1, 1), (1, 0), (0, 0)]) \<and>
   hops [(0, 0), (1, 0), (1, 1), (1, 2), (2, 2)] = hops [(2, 2), (1, 2), (1, 1), (1, 0), (0, 0)]"
proof -
  have b: "inBounds city3 (0, 0)" "inBounds city3 (2, 2)"
    by (simp_all add: inBounds_def city3_def)
  from findPath_symmetric_hops[OF city3_wf b city3_route city3_route_back] city3_wf b
    city3_route city3_route_back
  show ?thesis by blast
qed


section \<open>The actor (agent.js)\<close>

text \<open>
  JavaScript numbers are modelled as real numbers.  The sums of \<open>_decideLeisure\<close>, whose
  result decides between two phases, are rounded as the additions of the language round
  them (\<open>plus64\<close> below); the other sums and products are exact.  \<open>Infinity\<close> (the lunch
  times of an actor that takes no lunch) is a value of its own, and a field that the
  constructor leaves \<open>undefined\<close> is \<open>None\<close>; a comparison with it is false.
\<close>

datatype jsnum = Num real | Infinity

fun geq :: "real \<Rightarrow> jsnum \<Rightarrow> bool" where
  "geq t (Num v) = (t \<ge> v)"
| "geq t Infinity = False"

fun geqOpt :: "real \<Rightarrow> real option \<Rightarrow> bool" where
  "geqOpt t (Some v) = (t \<ge> v)"
| "geqOpt t None = False"

text \<open>\<open>Math.round\<close> rounds to the nearest integer, halves upwards.\<close>

definition js_round :: "real \<Rightarrow> int" where
  "js_round v = \<lfloor>v + 1 / 2\<rfloor>"

datatype phase =
    sleeping | waiting_for_work | commuting_to_work | at_work
  | commuting_to_lunch | at_lunch | returning_from_lunch
  | commuting_home_from_work | at_home_considering_leisure
  | commuting_to_leisure | at_leisure | commuting_home_from_leisure
  | at_home_evening | asleep_night

datatype vstate = st_sleeping | st_home | st_traveling | st_working | st_leisure

record logEntry =
  event :: string
  time :: real
  location :: "string option"

record agent =
  agentId :: nat
  home :: cell
  workplace :: cell
  leisureSpot :: "cell option"
  eatery :: "cell option"
  city :: city
  x :: real
  y :: real
  state :: vstate
  path :: "cell list option"
  pathIndex :: nat
  moveProgress :: real
  speed :: real
  workStart :: real
  wakeUpTime :: real
  workDuration :: real
  workEnd :: real
  takesLunch :: bool
  lunchDuration :: real
  lunchStart :: jsnum
  lunchEnd :: jsnum
  hadLunch :: bool
  ordersDelivery :: bool
  orderedDelivery :: bool
  orderTime :: "real option"
  wantsLeisure :: bool
  leisureDuration :: real
  bedTime :: real
  curfew :: real
  eventLog :: "logEntry list"
  pathHistory :: "(cell list \<times> tile) list"
  phase :: phase
  leisureDepartureTime :: "real option"
  leisureEndTime :: "real option"

text \<open>
  The constructor.  \<open>rnd\<close> is the sequence of values that the calls of \<open>Math.random\<close>
  return, in the order of the calls; the draw for the order time is made only by an actor
  that orders delivery, which shifts the later draws.
\<close>

definition chebyshev :: "cell \<Rightarrow> cell \<Rightarrow> int" where
  "chebyshev p q = max \<bar>fst p - fst q\<bar> \<bar>snd p - snd q\<bar>"

definition mkAgent :: "nat \<Rightarrow> cell \<Rightarrow> cell \<Rightarrow> cell option \<Rightarrow> cell option \<Rightarrow> city \<Rightarrow> (nat \<Rightarrow> real) \<Rightarrow> agent" where
  "mkAgent i hm wp ls ea c rnd =
     (let spd = 5 + rnd 0 * 3;
          ws = 6 + rnd 1 * 3;
          wk = ws - (0.5 + rnd 2 * 1.5);
          wd = 7 + rnd 3 * 3;
          we = ws + wd;
          tl = (rnd 4 < 0.4 + rnd 5 * 0.2 \<and> ea \<noteq> None);
          ld = 0.5 + rnd 6 * 0.5;
          lst = real_of_int (js_round ((ws + wd / 2) * 2)) / 2;
          od = (tl \<and> (case ea of None \<Rightarrow> False | Some e \<Rightarrow> chebyshev wp e > 20));
          k = (if od then 8 else 7);
          bt = 20 + rnd (k + 2) * 4
      in \<lparr> agentId = i, home = hm, workplace = wp, leisureSpot = ls, eatery = ea, city = c,
           x = real_of_int (fst hm), y = real_of_int (snd hm), state = st_sleeping,
           path = None, pathIndex = 0, moveProgress = 0, speed = spd,
           workStart = ws, wakeUpTime = wk, workDuration = wd, workEnd = we,
           takesLunch = tl, lunchDuration = ld,
           lunchStart = (if tl then Num lst else Infinity),
           lunchEnd = (if tl then Num (lst + ld) else Infinity),
           hadLunch = False, ordersDelivery = od, orderedDelivery = False,
           orderTime = (if od then Some (lst - (25 + rnd 7 * 10) / 60) else None),
           wantsLeisure = (rnd k < 0.4), leisureDuration = 1 + rnd (k + 1) * 2,
           bedTime = bt, curfew = bt - 1,
           eventLog = [], pathHistory = [], phase = sleeping,
           leisureDepartureTime = None, leisureEndTime = None \<rparr>)"

text \<open>\<open>_logEvent\<close>: the location is stored only when it is truthy.\<close>

definition logEvent :: "agent \<Rightarrow> string \<Rightarrow> real \<Rightarrow> string option \<Rightarrow> agent" where
  "logEvent a ev t loc =
     a\<lparr>eventLog := eventLog a @
          [\<lparr>event = ev, time = t,
            location = (case loc of None \<Rightarrow> None | Some l \<Rightarrow> if l = [] then None else Some l)\<rparr>]\<rparr>"

text \<open>\<open>_nameAt\<close>: \<open>null\<close> for no position.\<close>

definition nameAt :: "agent \<Rightarrow> cell option \<Rightarrow> string option" where
  "nameAt a pos = (case pos of None \<Rightarrow> None | Some p \<Rightarrow> getNameAt (city a) p)"

text \<open>
  \<open>_navigateTo\<close>.  \<open>None\<close>: the call does not return an actor, because \<open>findPath\<close> does
  not return or because the target is \<open>null\<close> (reading \<open>target.x\<close> throws).
\<close>

definition navigateTo :: "agent \<Rightarrow> cell option \<Rightarrow> agent option" where
  "navigateTo a target =
     (case target of None \<Rightarrow> None
      | Some tg \<Rightarrow>
          (let sx = js_round (x a); sy = js_round (y a) in
           case findPath (city a) (sx, sy) tg of None \<Rightarrow> None
           | Some r \<Rightarrow>
               Some (a\<lparr>path := r, pathIndex := 0, moveProgress := 0,
                       pathHistory :=
                         (case r of None \<Rightarrow> pathHistory a
                          | Some p \<Rightarrow> if length p > 1
                              then pathHistory a @ [(p, getTile (city a) (sx, sy))]
                              else pathHistory a)\<rparr>)))"

text \<open>The loop \<open>while (moveProgress >= 1 && pathIndex < path.length - 1)\<close>.\<close>

function advanceTiles :: "nat \<Rightarrow> nat \<Rightarrow> real \<Rightarrow> nat \<times> real" where
  "advanceTiles n idx mp =
     (if mp \<ge> 1 \<and> idx < n - 1 then advanceTiles n (Suc idx) (mp - 1) else (idx, mp))"
  by pat_completeness auto
termination
  by (relation "measure (\<lambda>(n, idx, mp). n - 1 - idx)") auto

declare advanceTiles.simps [simp del]

text \<open>\<open>_moveAlongPath\<close>: the actor after the move, and whether it has arrived.\<close>

definition moveAlongPath :: "agent \<Rightarrow> real \<Rightarrow> agent \<times> bool" where
  "moveAlongPath a dt =
     (case path a of None \<Rightarrow> (a, True)
      | Some p \<Rightarrow>
          if length p \<le> 1 then (a, True)
          else
            (let (idx, mp) = advanceTiles (length p) (pathIndex a) (moveProgress a + speed a * dt);
                 a1 = a\<lparr>moveProgress := mp, pathIndex := idx\<rparr>
             in if idx \<ge> length p - 1
                then (a1\<lparr>x := real_of_int (fst (last p)), y := real_of_int (snd (last p)),
                         path := None\<rparr>, True)
                else
                  (let curr = p ! idx; nxt = p ! (idx + 1); t = min mp 1 in
                   (a1\<lparr>x := real_of_int (fst curr) + (real_of_int (fst nxt) - real_of_int (fst curr)) * t,
                       y := real_of_int (snd curr) + (real_of_int (snd nxt) - real_of_int (snd curr)) * t\<rparr>,
                    False))))"

subsection \<open>Addition of numbers\<close>

text \<open>
  A number of the language is a binary64 value: 53 significant bits, and an exponent of
  at least \<open>-1022\<close>.  \<open>exponent v\<close> is the \<open>e\<close> with \<open>2^e \<le> v < 2^(e+1)\<close>, found by
  halving or doubling; \<open>ulp v\<close> is the distance between the binary64 values around \<open>v\<close>;
  \<open>binary64 v\<close> is the multiple of \<open>ulp v\<close> nearest to \<open>v\<close>, the even one of two that are
  equally near; and \<open>a + b\<close> in the language is \<open>plus64 a b\<close>, the exact sum rounded.  Sums
  beyond the largest binary64 value, which the language turns into \<open>Infinity\<close>, are outside
  this model.
\<close>

function halvings :: "real \<Rightarrow> nat" where
  "halvings v = (if v \<ge> 2 then Suc (halvings (v / 2)) else 0)"
  by pat_completeness auto
termination
  by (relation "measure (\<lambda>v. nat \<lceil>v\<rceil>)") (auto, linarith)

function doublings :: "real \<Rightarrow> nat" where
  "doublings v = (if 0 < v \<and> v < 1 then Suc (doublings (v * 2)) else 0)"
  by pat_completeness auto
termination
proof (relation "measure (\<lambda>v. nat \<lceil>1 / v\<rceil>)")
  show "wf (measure (\<lambda>v. nat \<lceil>1 / v\<rceil>))" by simp
next
  fix v :: real assume a: "0 < v \<and> v < 1"
  define w where "w = 1 / v"
  from a have w: "w > 1" "1 / (v * 2) = w / 2" by (simp_all add: w_def)
  from w(1) have c: "\<lceil>w\<rceil> \<ge> 2" by linarith
  have "w \<le> real_of_int \<lceil>w\<rceil>" by (rule le_of_int_ceiling)
  with c have "w / 2 \<le> real_of_int (\<lceil>w\<rceil> - 1)" by linarith
  then have "\<lceil>w / 2\<rceil> \<le> \<lceil>w\<rceil> - 1" by (rule ceiling_le)
  with c have "nat \<lceil>w / 2\<rceil> < nat \<lceil>w\<rceil>" by linarith
  then show "(v * 2, v) \<in> measure (\<lambda>v. nat \<lceil>1 / v\<rceil>)"
    unfolding w(2)[symmetric] w_def by simp
qed

declare halvings.simps [simp del] doublings.simps [simp del]

definition exponent :: "real \<Rightarrow> int" where
  "exponent v = (if v \<ge> 1 then int (halvings v) else - int (doublings v))"

definition roundEven :: "real \<Rightarrow> int" where
  "roundEven m =
     (let n = \<lfloor>m\<rfloor>; f = m - of_int n in
      if f < 1 / 2 then n else if f > 1 / 2 then n + 1 else if even n then n else n + 1)"

definition ulp :: "real \<Rightarrow> real" where
  "ulp v = (let e = max (exponent \<bar>v\<bar>) (- 1022) - 52 in
            if e \<ge> 0 then 2 ^ nat e else 1 / 2 ^ nat (- e))"

definition binary64 :: "real \<Rightarrow> real" where
  "binary64 v = (if v = 0 then 0 else of_int (roundEven (v / ulp v)) * ulp v)"

definition plus64 :: "real \<Rightarrow> real \<Rightarrow> real" where
  "plus64 a b = binary64 (a + b)"

text \<open>The exponent brackets the value, and rounding moves it by at most half a unit.\<close>

lemma halvings_bounds: "v \<ge> 1 \<Longrightarrow> 2 ^ halvings v \<le> v \<and> v < 2 ^ Suc (halvings v)"
proof (induction v rule: halvings.induct)
  case (1 v)
  show ?case
  proof (cases "v \<ge> 2")
    case True
    with 1 have "2 ^ halvings (v / 2) \<le> v / 2 \<and> v / 2 < 2 ^ Suc (halvings (v / 2))" by simp
    moreover have "halvings v = Suc (halvings (v / 2))" using True by (subst halvings.simps) simp
    ultimately show ?thesis by simp
  next
    case False
    then have "halvings v = 0" by (subst halvings.simps) simp
    with False 1 show ?thesis by simp
  qed
qed

lemma doublings_bounds: "0 < v \<Longrightarrow> v < 1 \<Longrightarrow> 1 \<le> v * 2 ^ doublings v \<and> v * 2 ^ doublings v < 2"
proof (induction v rule: doublings.induct)
  case (1 v)
  have d: "doublings v = Suc (doublings (v * 2))" using 1(2,3) by (subst doublings.simps) simp
  show ?case
  proof (cases "v * 2 < 1")
    case True
    with 1 have "1 \<le> v * 2 * 2 ^ doublings (v * 2) \<and> v * 2 * 2 ^ doublings (v * 2) < 2" by simp
    with d show ?thesis by (simp add: mult.assoc)
  next
    case False
    then have "doublings (v * 2) = 0" by (subst doublings.simps) simp
    with d False 1 show ?thesis by simp
  qed
qed

lemma roundEven_near: "\<bar>real_of_int (roundEven m) - m\<bar> \<le> 1 / 2"
  unfolding roundEven_def Let_def by (auto split: if_splits)

lemma ulp_pos: "ulp v > 0"
  by (simp add: ulp_def Let_def)

lemma binary64_near: "\<bar>binary64 v - v\<bar> \<le> ulp v / 2"
proof (cases "v = 0")
  case True
  then show ?thesis using ulp_pos[of v] by (simp add: binary64_def)
next
  case False
  define m where "m = real_of_int (roundEven (v / ulp v))"
  have "\<bar>m - v / ulp v\<bar> \<le> 1 / 2" unfolding m_def by (rule roundEven_near)
  then have "\<bar>m - v / ulp v\<bar> * ulp v \<le> 1 / 2 * ulp v"
    using ulp_pos[of v] by (simp add: mult_right_mono)
  moreover have "\<bar>m - v / ulp v\<bar> * ulp v = \<bar>(m - v / ulp v) * ulp v\<bar>"
    using ulp_pos[of v] by (simp add: abs_mult)
  moreover have "(m - v / ulp v) * ulp v = m * ulp v - v"
    using ulp_pos[of v] by (simp add: field_simps)
  ultimately show ?thesis using False by (simp add: binary64_def m_def)
qed

text \<open>Two values every implementation of the language agrees on: the number written
  \<open>0.1\<close>, and the sum \<open>0.1 + 0.2\<close>, which is \<open>0.30000000000000004\<close>.\<close>

lemma binary64_examples:
  "binary64 (1 / 10) = 3602879701896397 / 2 ^ 55"
  "plus64 (binary64 (1 / 10)) (binary64 (2 / 10)) = 1351079888211149 / 2 ^ 52"
  "plus64 (1 / 2) (1 / 4) = 3 / 4"
  by code_simp+

text \<open>
  \<open>_decideLeisure\<close>; \<open>r\<close> is the value of its call of \<open>Math.random\<close>.  The estimate
  \<open>simHours + 0.5 + this.leisureDuration + 0.5\<close> is three additions, from left to right.
\<close>

definition estimatedReturn :: "agent \<Rightarrow> real \<Rightarrow> real" where
  "estimatedReturn a t = plus64 (plus64 (plus64 t 0.5) (leisureDuration a)) 0.5"

definition decideLeisure :: "agent \<Rightarrow> real \<Rightarrow> real \<Rightarrow> agent" where
  "decideLeisure a t r =
     (if wantsLeisure a \<and> leisureSpot a \<noteq> None then
        (if estimatedReturn a t \<le> curfew a
         then (let dep = t + 0.3 + r * 0.4 in
               a\<lparr>leisureDepartureTime := Some dep,
                 leisureEndTime := Some (dep + 0.2 + leisureDuration a),
                 phase := at_home_considering_leisure\<rparr>)
         else a\<lparr>phase := at_home_evening\<rparr>)
      else a\<lparr>phase := at_home_evening\<rparr>)"

text \<open>\<open>_headHome\<close>.\<close>

definition headHome :: "agent \<Rightarrow> real \<Rightarrow> phase \<Rightarrow> real \<Rightarrow> agent option" where
  "headHome a t nextPhase r =
     (case navigateTo a (Some (home a)) of None \<Rightarrow> None
      | Some a1 \<Rightarrow>
          if path a1 \<noteq> None then Some (a1\<lparr>phase := nextPhase, state := st_traveling\<rparr>)
          else
            (let a2 = logEvent (a1\<lparr>x := real_of_int (fst (home a1)), y := real_of_int (snd (home a1)),
                                   state := st_home\<rparr>)
                        ''Arrived home'' t (nameAt a1 (Some (home a1)))
             in if nextPhase = commuting_home_from_work then Some (decideLeisure a2 t r)
                else Some (a2\<lparr>phase := at_home_evening\<rparr>)))"

text \<open>
  \<open>update\<close>, the advance operation: \<open>t\<close> is \<open>simHours\<close>, \<open>dt\<close> is \<open>deltaSeconds\<close>, \<open>r\<close> the
  value a call of \<open>Math.random\<close> returns during this call.  One definition per case of
  the \<open>switch\<close>.
\<close>

definition upd_sleeping :: "agent \<Rightarrow> real \<Rightarrow> agent option" where
  "upd_sleeping a t =
     (if t \<ge> wakeUpTime a
      then Some (logEvent (a\<lparr>phase := waiting_for_work, state := st_home\<rparr>)
                   ''Wake up'' t (nameAt a (Some (home a))))
      else Some a)"

definition upd_waiting_for_work :: "agent \<Rightarrow> real \<Rightarrow> agent option" where
  "upd_waiting_for_work a t =
     (if t \<ge> workStart a then
        (case navigateTo a (Some (workplace a)) of None \<Rightarrow> None
         | Some a1 \<Rightarrow>
             if path a1 \<noteq> None
             then Some (logEvent (a1\<lparr>phase := commuting_to_work, state := st_traveling\<rparr>)
                          ''Left home'' t (nameAt a1 (Some (home a1))))
             else Some a1)
      else Some a)"

definition upd_commuting_to_work :: "agent \<Rightarrow> real \<Rightarrow> real \<Rightarrow> agent option" where
  "upd_commuting_to_work a t dt =
     (let (a1, arrived) = moveAlongPath a dt in
      if arrived
      then Some (logEvent (a1\<lparr>phase := at_work, state := st_working\<rparr>)
                   ''Arrived work'' t (nameAt a1 (Some (workplace a1))))
      else Some a1)"

definition upd_at_work :: "agent \<Rightarrow> real \<Rightarrow> real \<Rightarrow> agent option" where
  "upd_at_work a t r =
     (let a1 = (if ordersDelivery a \<and> \<not> orderedDelivery a \<and> geqOpt t (orderTime a)
                then logEvent (a\<lparr>orderedDelivery := True\<rparr>)
                       ''Ordered delivery'' t (nameAt a (eatery a))
                else a)
      in if \<not> hadLunch a1 \<and> takesLunch a1 \<and> geq t (lunchStart a1) then
           (let a2 = a1\<lparr>hadLunch := True\<rparr> in
            if ordersDelivery a2 then Some a2
            else
              (let a3 = logEvent a2 ''Left for lunch'' t (nameAt a2 (Some (workplace a2))) in
               case navigateTo a3 (eatery a3) of None \<Rightarrow> None
               | Some a4 \<Rightarrow>
                   if path a4 \<noteq> None
                   then Some (a4\<lparr>phase := commuting_to_lunch, state := st_traveling\<rparr>)
                   else Some a4))
         else if t \<ge> workEnd a1
           then headHome (logEvent a1 ''Left work'' t (nameAt a1 (Some (workplace a1))))
                  t commuting_home_from_work r
         else Some a1)"

definition upd_commuting_to_lunch :: "agent \<Rightarrow> real \<Rightarrow> real \<Rightarrow> real \<Rightarrow> agent option" where
  "upd_commuting_to_lunch a t dt r =
     (if t \<ge> workEnd a
      then headHome (logEvent a ''Left work'' t None) t commuting_home_from_work r
      else
        (let (a1, arrived) = moveAlongPath a dt in
         if arrived
         then Some (logEvent (a1\<lparr>phase := at_lunch, state := st_leisure\<rparr>)
                      ''Arrived eatery'' t (nameAt a1 (eatery a1)))
         else Some a1))"

definition upd_at_lunch :: "agent \<Rightarrow> real \<Rightarrow> real \<Rightarrow> agent option" where
  "upd_at_lunch a t r =
     (if t \<ge> workEnd a
      then headHome (logEvent a ''Left eatery (late)'' t (nameAt a (eatery a)))
             t commuting_home_from_work r
      else if geq t (lunchEnd a) then
        (case navigateTo (logEvent a ''Left eatery'' t (nameAt a (eatery a))) (Some (workplace a)) of
           None \<Rightarrow> None
         | Some a1 \<Rightarrow>
             if path a1 \<noteq> None
             then Some (a1\<lparr>phase := returning_from_lunch, state := st_traveling\<rparr>)
             else Some (a1\<lparr>phase := at_work, state := st_working\<rparr>))
      else Some a)"

definition upd_returning_from_lunch :: "agent \<Rightarrow> real \<Rightarrow> real \<Rightarrow> real \<Rightarrow> agent option" where
  "upd_returning_from_lunch a t dt r =
     (if t \<ge> workEnd a \<and> path a = None
      then headHome (logEvent a ''Left work'' t None) t commuting_home_from_work r
      else
        (let (a1, arrived) = moveAlongPath a dt in
         if arrived
         then Some (logEvent (a1\<lparr>phase := at_work, state := st_working\<rparr>)
                      ''Returned to work'' t (nameAt a1 (Some (workplace a1))))
         else Some a1))"

definition upd_commuting_home_from_work :: "agent \<Rightarrow> real \<Rightarrow> real \<Rightarrow> real \<Rightarrow> agent option" where
  "upd_commuting_home_from_work a t dt r =
     (let (a1, arrived) = moveAlongPath a dt in
      if arrived
      then Some (decideLeisure
                   (logEvent (a1\<lparr>state := st_home\<rparr>) ''Arrived home'' t (nameAt a1 (Some (home a1))))
                   t r)
      else Some a1)"

definition upd_at_home_considering_leisure :: "agent \<Rightarrow> real \<Rightarrow> agent option" where
  "upd_at_home_considering_leisure a t =
     (if geqOpt t (leisureDepartureTime a) then
        (case navigateTo a (leisureSpot a) of None \<Rightarrow> None
         | Some a1 \<Rightarrow>
             if path a1 \<noteq> None
             then Some (logEvent (a1\<lparr>phase := commuting_to_leisure, state := st_traveling\<rparr>)
                          ''Left home'' t (nameAt a1 (Some (home a1))))
             else Some (a1\<lparr>phase := at_home_evening\<rparr>))
      else Some a)"

definition upd_commuting_to_leisure :: "agent \<Rightarrow> real \<Rightarrow> real \<Rightarrow> agent option" where
  "upd_commuting_to_leisure a t dt =
     (let (a1, arrived) = moveAlongPath a dt in
      if arrived
      then Some (logEvent (a1\<lparr>phase := at_leisure, state := st_leisure\<rparr>)
                   ''Arrived leisure'' t (nameAt a1 (leisureSpot a1)))
      else Some a1)"

definition upd_at_leisure :: "agent \<Rightarrow> real \<Rightarrow> real \<Rightarrow> agent option" where
  "upd_at_leisure a t r =
     (if geqOpt t (leisureEndTime a)
      then headHome (logEvent a ''Left leisure'' t (nameAt a (leisureSpot a)))
             t commuting_home_from_leisure r
      else Some a)"

definition upd_commuting_home_from_leisure :: "agent \<Rightarrow> real \<Rightarrow> real \<Rightarrow> agent option" where
  "upd_commuting_home_from_leisure a t dt =
     (let (a1, arrived) = moveAlongPath a dt in
      if arrived
      then Some (logEvent (a1\<lparr>phase := at_home_evening, state := st_home\<rparr>)
                   ''Arrived home'' t (nameAt a1 (Some (home a1))))
      else Some a1)"

definition upd_at_home_evening :: "agent \<Rightarrow> real \<Rightarrow> agent option" where
  "upd_at_home_evening a t =
     (if t \<ge> bedTime a
      then Some (logEvent (a\<lparr>phase := asleep_night, state := st_sleeping\<rparr>)
                   ''Went to sleep'' t (nameAt a (Some (home a))))
      else Some a)"

definition update :: "agent \<Rightarrow> real \<Rightarrow> real \<Rightarrow> real \<Rightarrow> agent option" where
  "update a t dt r =
     (case phase a of
        sleeping \<Rightarrow> upd_sleeping a t
      | waiting_for_work \<Rightarrow> upd_waiting_for_work a t
      | commuting_to_work \<Rightarrow> upd_commuting_to_work a t dt
      | at_work \<Rightarrow> upd_at_work a t r
      | commuting_to_lunch \<Rightarrow> upd_commuting_to_lunch a t dt r
      | at_lunch \<Rightarrow> upd_at_lunch a t r
      | returning_from_lunch \<Rightarrow> upd_returning_from_lunch a t dt r
      | commuting_home_from_work \<Rightarrow> upd_commuting_home_from_work a t dt r
      | at_home_considering_leisure \<Rightarrow> upd_at_home_considering_leisure a t
      | commuting_to_leisure \<Rightarrow> upd_commuting_to_leisure a t dt
      | at_leisure \<Rightarrow> upd_at_leisure a t r
      | commuting_home_from_leisure \<Rightarrow> upd_commuting_home_from_leisure a t dt
      | at_home_evening \<Rightarrow> upd_at_home_evening a t
      | asleep_night \<Rightarrow> Some a)"

section \<open>The courier (DeliveryDriver)\<close>

datatype dphase = d_waiting | d_delivering | d_dropping_off | d_returning | d_done

text \<open>
  The courier holds a reference to its owning actor: \<open>drv_agent\<close> is the position of that
  actor in the list of actors of the simulation.  The fields that share a name with a
  field of the actor carry the prefix \<open>drv_\<close>.
\<close>

record driver =
  drv_eatery :: cell
  drv_business :: cell
  drv_agent :: nat
  drv_city :: city
  simHoursPerSec :: real
  drv_x :: real
  drv_y :: real
  drv_speed :: real
  drv_phase :: dphase
  drv_path :: "cell list option"
  drv_pathIndex :: nat
  drv_moveProgress :: real
  dropOffEnd :: real
  deliveryPath :: "cell list option"
  departureTime :: jsnum

text \<open>\<open>agent.lunchStart - travelSimHours\<close> and \<open>Math.max(0, ..)\<close> on numbers that may be
  \<open>Infinity\<close>.\<close>

fun minusNum :: "jsnum \<Rightarrow> real \<Rightarrow> jsnum" where
  "minusNum (Num v) w = Num (v - w)"
| "minusNum Infinity w = Infinity"

fun max0 :: "jsnum \<Rightarrow> jsnum" where
  "max0 (Num v) = Num (max 0 v)"
| "max0 Infinity = Infinity"

text \<open>
  The constructor: \<open>ref\<close> is the reference to the owning actor \<open>a\<close>, \<open>r\<close> the value of the
  call of \<open>Math.random\<close>.  \<open>None\<close>: \<open>findPath\<close> does not return.
\<close>

definition mkDriver :: "cell \<Rightarrow> cell \<Rightarrow> nat \<Rightarrow> agent \<Rightarrow> city \<Rightarrow> real \<Rightarrow> real \<Rightarrow> driver option" where
  "mkDriver ea bus ref a c shps r =
     (case findPath c ea bus of None \<Rightarrow> None
      | Some dpath \<Rightarrow>
          (let spd = 7 + r * 2;
               d = \<lparr> drv_eatery = ea, drv_business = bus, drv_agent = ref, drv_city = c,
                     simHoursPerSec = shps,
                     drv_x = real_of_int (fst ea), drv_y = real_of_int (snd ea),
                     drv_speed = spd, drv_phase = d_waiting, drv_path = None,
                     drv_pathIndex = 0, drv_moveProgress = 0, dropOffEnd = 0,
                     deliveryPath = dpath, departureTime = Num 0 \<rparr>
           in case dpath of
                None \<Rightarrow> Some (d\<lparr>drv_phase := d_done, departureTime := Infinity\<rparr>)
              | Some p \<Rightarrow>
                  if length p > 1
                  then Some (d\<lparr>departureTime :=
                         max0 (minusNum (lunchStart a) ((real (length p - 1) / spd) * shps))\<rparr>)
                  else Some (d\<lparr>drv_phase := d_done, departureTime := Infinity\<rparr>)))"

definition drv_navigateTo :: "driver \<Rightarrow> cell \<Rightarrow> driver option" where
  "drv_navigateTo d tg =
     (case findPath (drv_city d) (js_round (drv_x d), js_round (drv_y d)) tg of None \<Rightarrow> None
      | Some r \<Rightarrow> Some (d\<lparr>drv_path := r, drv_pathIndex := 0, drv_moveProgress := 0\<rparr>))"

definition drv_moveAlongPath :: "driver \<Rightarrow> real \<Rightarrow> driver \<times> bool" where
  "drv_moveAlongPath d dt =
     (case drv_path d of None \<Rightarrow> (d, True)
      | Some p \<Rightarrow>
          if length p \<le> 1 then (d, True)
          else
            (let (idx, mp) = advanceTiles (length p) (drv_pathIndex d)
                               (drv_moveProgress d + drv_speed d * dt);
                 d1 = d\<lparr>drv_moveProgress := mp, drv_pathIndex := idx\<rparr>
             in if idx \<ge> length p - 1
                then (d1\<lparr>drv_x := real_of_int (fst (last p)), drv_y := real_of_int (snd (last p)),
                         drv_path := None\<rparr>, True)
                else
                  (let curr = p ! idx; nxt = p ! (idx + 1); t = min mp 1 in
                   (d1\<lparr>drv_x := real_of_int (fst curr) + (real_of_int (fst nxt) - real_of_int (fst curr)) * t,
                       drv_y := real_of_int (snd curr) + (real_of_int (snd nxt) - real_of_int (snd curr)) * t\<rparr>,
                    False))))"

text \<open>
  \<open>update\<close> of the courier.  It writes into the log of the owning actor, so it takes that
  actor and returns it with the courier.
\<close>

definition drv_update :: "driver \<Rightarrow> agent \<Rightarrow> real \<Rightarrow> real \<Rightarrow> (driver \<times> agent) option" where
  "drv_update d a t dt =
     (case drv_phase d of
        d_waiting \<Rightarrow>
          if geq t (departureTime d)
          then Some (d\<lparr>drv_path := deliveryPath d, drv_pathIndex := 0, drv_moveProgress := 0,
                       deliveryPath := None, drv_phase := d_delivering\<rparr>, a)
          else Some (d, a)
      | d_delivering \<Rightarrow>
          (let (d1, arrived) = drv_moveAlongPath d dt in
           if arrived
           then (let eateryName = (case getNameAt (drv_city d1) (drv_eatery d1) of
                                     None \<Rightarrow> ''Eatery'' | Some n \<Rightarrow> n)
                 in Some (d1\<lparr>drv_x := real_of_int (fst (drv_business d1)),
                              drv_y := real_of_int (snd (drv_business d1)),
                              dropOffEnd := t + 10 / 60, drv_phase := d_dropping_off\<rparr>,
                          logEvent a (''Delivery by '' @ eateryName) t (Some eateryName)))
           else Some (d1, a))
      | d_dropping_off \<Rightarrow>
          if t \<ge> dropOffEnd d then
            (case drv_navigateTo d (drv_eatery d) of None \<Rightarrow> None
             | Some d1 \<Rightarrow>
                 Some (d1\<lparr>drv_phase := (if drv_path d1 \<noteq> None then d_returning else d_done)\<rparr>, a))
          else Some (d, a)
      | d_returning \<Rightarrow>
          (let (d1, arrived) = drv_moveAlongPath d dt in
           if arrived then Some (d1\<lparr>drv_phase := d_done\<rparr>, a) else Some (d1, a))
      | d_done \<Rightarrow> Some (d, a))"

section \<open>The tick driver (simulation.js)\<close>

definition SIM_DURATION_REAL :: real where "SIM_DURATION_REAL = 180"
definition SIM_DURATION_HOURS :: real where "SIM_DURATION_HOURS = 24"

text \<open>
  The second loop of \<open>_createAgents\<close>: one courier for each actor that orders delivery,
  in the order of the actors.  \<open>pos\<close> is the position of the first actor of the list, \<open>k\<close>
  the number of couriers made so far, \<open>rnd k\<close> the random value of the \<open>k\<close>-th constructor.
\<close>

fun createDriversFrom :: "city \<Rightarrow> nat \<Rightarrow> nat \<Rightarrow> (nat \<Rightarrow> real) \<Rightarrow> agent list \<Rightarrow> driver list option" where
  "createDriversFrom c pos k rnd [] = Some []"
| "createDriversFrom c pos k rnd (a # as) =
     (if \<not> ordersDelivery a then createDriversFrom c (Suc pos) k rnd as
      else case eatery a of None \<Rightarrow> None
        | Some ea \<Rightarrow>
            (case mkDriver ea (workplace a) pos a c (SIM_DURATION_HOURS / SIM_DURATION_REAL) (rnd k) of
               None \<Rightarrow> None
             | Some d \<Rightarrow> map_option ((#) d) (createDriversFrom c (Suc pos) (Suc k) rnd as)))"

definition createDrivers :: "city \<Rightarrow> (nat \<Rightarrow> real) \<Rightarrow> agent list \<Rightarrow> driver list option" where
  "createDrivers c rnd as = createDriversFrom c 0 0 rnd as"

text \<open>
  One pass of \<open>_loop\<close> at simulated hour \<open>t\<close>: every actor is updated, in order, then every
  courier, in order.  \<open>rnd i\<close> is the random value available to the \<open>i\<close>-th actor.
\<close>

fun updateAgents :: "nat \<Rightarrow> agent list \<Rightarrow> real \<Rightarrow> real \<Rightarrow> (nat \<Rightarrow> real) \<Rightarrow> agent list option" where
  "updateAgents pos [] t dt rnd = Some []"
| "updateAgents pos (a # as) t dt rnd =
     (case update a t dt (rnd pos) of None \<Rightarrow> None
      | Some a' \<Rightarrow> map_option ((#) a') (updateAgents (Suc pos) as t dt rnd))"

fun updateDrivers :: "driver list \<Rightarrow> agent list \<Rightarrow> real \<Rightarrow> real \<Rightarrow> (driver list \<times> agent list) option" where
  "updateDrivers [] as t dt = Some ([], as)"
| "updateDrivers (d # ds) as t dt =
     (if drv_agent d < length as then
        (case drv_update d (as ! drv_agent d) t dt of None \<Rightarrow> None
         | Some (d', a') \<Rightarrow>
             (case updateDrivers ds (as[drv_agent d := a']) t dt of None \<Rightarrow> None
              | Some (ds', as') \<Rightarrow> Some (d' # ds', as')))
      else None)"

record simulation =
  agents :: "agent list"
  drivers :: "driver list"

definition loopStep :: "simulation \<Rightarrow> real \<Rightarrow> real \<Rightarrow> (nat \<Rightarrow> real) \<Rightarrow> simulation option" where
  "loopStep sim t dt rnd =
     (case updateAgents 0 (agents sim) t dt rnd of None \<Rightarrow> None
      | Some as1 \<Rightarrow>
          (case updateDrivers (drivers sim) as1 t dt of None \<Rightarrow> None
           | Some (ds', as2) \<Rightarrow> Some \<lparr>agents = as2, drivers = ds'\<rparr>))"

text \<open>A run: the passes of the loop, each with its simulated hour, its real-time delta
  and its random values.\<close>

fun runSim :: "simulation \<Rightarrow> (real \<times> real \<times> (nat \<Rightarrow> real)) list \<Rightarrow> simulation option" where
  "runSim sim [] = Some sim"
| "runSim sim ((t, dt, rnd) # ticks) =
     (case loopStep sim t dt rnd of None \<Rightarrow> None | Some sim' \<Rightarrow> runSim sim' ticks)"

section \<open>Single calls of the advance operation\<close>

subsection \<open>What a call leaves alone\<close>

text \<open>The identity, the places and the schedule of an actor: set by the constructor.\<close>

definition schedule :: "agent \<Rightarrow> _" where
  "schedule a =
     (agentId a, home a, workplace a, leisureSpot a, eatery a, city a, speed a,
      (workStart a, wakeUpTime a, workDuration a, workEnd a),
      (takesLunch a, lunchDuration a, lunchStart a, lunchEnd a, ordersDelivery a, orderTime a),
      (wantsLeisure a, leisureDuration a, bedTime a, curfew a))"

text \<open>The route that \<open>_navigateTo\<close> asks for: from the rounded position to the target.\<close>

definition routeFrom :: "agent \<Rightarrow> cell \<Rightarrow> cell list option option" where
  "routeFrom a tg = findPath (city a) (js_round (x a), js_round (y a)) tg"

lemma schedule_upd [simp]:
  "schedule (a\<lparr>path := v1\<rparr>) = schedule a"
  "schedule (a\<lparr>pathIndex := v2\<rparr>) = schedule a"
  "schedule (a\<lparr>moveProgress := v3\<rparr>) = schedule a"
  "schedule (a\<lparr>pathHistory := v4\<rparr>) = schedule a"
  "schedule (a\<lparr>x := v5\<rparr>) = schedule a"
  "schedule (a\<lparr>y := v6\<rparr>) = schedule a"
  "schedule (a\<lparr>state := v7\<rparr>) = schedule a"
  "schedule (a\<lparr>phase := v8\<rparr>) = schedule a"
  "schedule (a\<lparr>eventLog := v9\<rparr>) = schedule a"
  "schedule (a\<lparr>hadLunch := v10\<rparr>) = schedule a"
  "schedule (a\<lparr>orderedDelivery := v11\<rparr>) = schedule a"
  "schedule (a\<lparr>leisureDepartureTime := v12\<rparr>) = schedule a"
  "schedule (a\<lparr>leisureEndTime := v13\<rparr>) = schedule a"
  by (simp_all add: schedule_def)

lemma schedule_fields:
  assumes "schedule a' = schedule a"
  shows "home a' = home a" "workplace a' = workplace a" "leisureSpot a' = leisureSpot a"
    "eatery a' = eatery a" "city a' = city a" "workEnd a' = workEnd a"
    "takesLunch a' = takesLunch a" "lunchStart a' = lunchStart a" "lunchEnd a' = lunchEnd a"
    "ordersDelivery a' = ordersDelivery a" "orderTime a' = orderTime a"
    "wantsLeisure a' = wantsLeisure a" "leisureDuration a' = leisureDuration a"
    "bedTime a' = bedTime a" "curfew a' = curfew a" "agentId a' = agentId a"
  using assms by (simp_all add: schedule_def)

lemma schedule_logEvent [simp]: "schedule (logEvent a ev t l) = schedule a"
  by (simp add: logEvent_def)

lemma estimatedReturn_cong:
  "leisureDuration b = leisureDuration a \<Longrightarrow> estimatedReturn b t = estimatedReturn a t"
  by (simp add: estimatedReturn_def)

lemma estimatedReturn_logEvent [simp]:
  "estimatedReturn (logEvent a ev t' l) t = estimatedReturn a t"
  by (simp add: estimatedReturn_def logEvent_def)

lemma decideLeisure_phase:
  "phase (decideLeisure a t r) =
     (if wantsLeisure a \<and> leisureSpot a \<noteq> None \<and> estimatedReturn a t \<le> curfew a
      then at_home_considering_leisure else at_home_evening)"
  by (simp add: decideLeisure_def Let_def)

lemma decideLeisure_keeps [simp]:
  "schedule (decideLeisure a t r) = schedule a"
  "x (decideLeisure a t r) = x a" "y (decideLeisure a t r) = y a"
  "eventLog (decideLeisure a t r) = eventLog a" "path (decideLeisure a t r) = path a"
  "hadLunch (decideLeisure a t r) = hadLunch a"
  "orderedDelivery (decideLeisure a t r) = orderedDelivery a"
  by (simp_all add: decideLeisure_def Let_def)

lemma navigateTo_keeps:
  assumes "navigateTo a tg = Some a'"
  shows "schedule a' = schedule a" "phase a' = phase a" "x a' = x a" "y a' = y a"
    "eventLog a' = eventLog a" "hadLunch a' = hadLunch a" "orderedDelivery a' = orderedDelivery a"
  using assms by (auto simp: navigateTo_def Let_def split: option.splits)

lemma navigateTo_path:
  assumes "navigateTo a tg = Some a'"
  shows "\<exists>tgt. tg = Some tgt \<and> routeFrom a tgt = Some (path a')"
  using assms by (auto simp: navigateTo_def routeFrom_def Let_def split: option.splits)

lemma moveAlongPath_keeps:
  assumes "moveAlongPath a dt = (a', b)"
  shows "schedule a' = schedule a" "phase a' = phase a" "eventLog a' = eventLog a"
    "hadLunch a' = hadLunch a" "orderedDelivery a' = orderedDelivery a"
  using assms
  by (auto simp: moveAlongPath_def Let_def split: option.splits if_splits prod.splits)

lemma routeFrom_logEvent [simp]: "routeFrom (logEvent a ev t l) tg = routeFrom a tg"
  by (simp add: routeFrom_def logEvent_def)

lemma logEvent_keeps [simp]:
  "phase (logEvent a ev t l) = phase a" "x (logEvent a ev t l) = x a" "y (logEvent a ev t l) = y a"
  "path (logEvent a ev t l) = path a" "hadLunch (logEvent a ev t l) = hadLunch a"
  "orderedDelivery (logEvent a ev t l) = orderedDelivery a"
  "home (logEvent a ev t l) = home a"
  by (simp_all add: logEvent_def)

text \<open>\<open>_headHome\<close>: with a route the actor enters the travel phase where it stands; with
  none it is moved to its home cell, logs its arrival and goes on to the evening.\<close>

lemma headHome_cases:
  assumes "headHome a t np r = Some a'"
  shows "(routeFrom a (home a) = Some (path a') \<and> path a' \<noteq> None \<and> phase a' = np \<and>
          x a' = x a \<and> y a' = y a \<and> eventLog a' = eventLog a)
       \<or> (routeFrom a (home a) = Some None \<and> path a' = None \<and>
          x a' = real_of_int (fst (home a)) \<and> y a' = real_of_int (snd (home a)) \<and>
          eventLog a' = eventLog a @ [\<lparr>event = ''Arrived home'', time = t,
                                         location = getNameAt (city a) (home a)\<rparr>] \<and>
          phase a' = (if np = commuting_home_from_work
                      then (if wantsLeisure a \<and> leisureSpot a \<noteq> None \<and>
                               estimatedReturn a t \<le> curfew a
                            then at_home_considering_leisure else at_home_evening)
                      else at_home_evening))"
proof -
  from assms obtain a1 where nav: "navigateTo a (Some (home a)) = Some a1"
    by (auto simp: headHome_def split: option.splits)
  note k = navigateTo_keeps[OF nav]
  note f = schedule_fields[OF k(1)]
  from navigateTo_path[OF nav] have route: "routeFrom a (home a) = Some (path a1)" by simp
  show ?thesis
  proof (cases "path a1")
    case (Some p)
    with assms nav have "a' = a1\<lparr>phase := np, state := st_traveling\<rparr>"
      by (simp add: headHome_def)
    with Some route k show ?thesis by simp
  next
    case None
    define a2 where "a2 = logEvent (a1\<lparr>x := real_of_int (fst (home a1)), y := real_of_int (snd (home a1)),
                                   state := st_home\<rparr>)
                        ''Arrived home'' t (nameAt a1 (Some (home a1)))"
    have a2: "path a2 = None" "x a2 = real_of_int (fst (home a))" "y a2 = real_of_int (snd (home a))"
      "eventLog a2 = eventLog a @ [\<lparr>event = ''Arrived home'', time = t,
                                         location = getNameAt (city a) (home a)\<rparr>]"
      "wantsLeisure a2 = wantsLeisure a" "leisureSpot a2 = leisureSpot a"
      "leisureDuration a2 = leisureDuration a" "curfew a2 = curfew a"
      "estimatedReturn a2 t = estimatedReturn a t"
      using None k(5) f
      by (auto simp: a2_def logEvent_def nameAt_def getNameAt_def estimatedReturn_def
               split: option.splits)
    from assms nav None have a': "a' = (if np = commuting_home_from_work then decideLeisure a2 t r
                                   else a2\<lparr>phase := at_home_evening\<rparr>)"
      by (auto simp: headHome_def a2_def Let_def split: if_splits)
    show ?thesis
    proof (cases "np = commuting_home_from_work")
      case True
      with a' have "a' = decideLeisure a2 t r" by simp
      with a2 route None True show ?thesis
        by (simp add: decideLeisure_phase)
    next
      case False
      with a' have "a' = a2\<lparr>phase := at_home_evening\<rparr>" by simp
      with a2 route None False show ?thesis by simp
    qed
  qed
qed

lemma headHome_keeps:
  assumes "headHome a t np r = Some a'"
  shows "schedule a' = schedule a" "hadLunch a' = hadLunch a" "orderedDelivery a' = orderedDelivery a"
  using assms
  by (auto simp: headHome_def Let_def navigateTo_keeps split: option.splits if_splits)

lemmas upd_defs = upd_sleeping_def upd_waiting_for_work_def upd_commuting_to_work_def upd_at_work_def
  upd_commuting_to_lunch_def upd_at_lunch_def upd_returning_from_lunch_def
  upd_commuting_home_from_work_def upd_at_home_considering_leisure_def
  upd_commuting_to_leisure_def upd_at_leisure_def upd_commuting_home_from_leisure_def
  upd_at_home_evening_def

lemma update_schedule: "update a t dt r = Some a' \<Longrightarrow> schedule a' = schedule a"
  unfolding update_def
  by (cases "phase a")
     (auto simp: upd_defs Let_def navigateTo_keeps moveAlongPath_keeps headHome_keeps
           split: option.splits if_splits prod.splits)

subsection \<open>The transition graph of the design\<close>

text \<open>
  The phases and the transitions as the design document lists them: \<open>asleep\<close> is both the
  initial and the terminal phase, and \<open>at-home-just-arrived\<close> stands between the evening
  commute and the decision about leisure.
\<close>

datatype sphase =
    s_asleep | s_waiting_for_departure | s_commuting_to_work | s_at_work
  | s_commuting_to_lunch | s_at_lunch | s_returning_from_lunch
  | s_commuting_home | s_at_home_just_arrived | s_considering_leisure | s_evening_at_home
  | s_commuting_to_leisure | s_at_leisure | s_commuting_home_from_leisure

definition specEdges :: "(sphase \<times> sphase) list" where
  "specEdges =
     [(s_asleep, s_waiting_for_departure),
      (s_waiting_for_departure, s_commuting_to_work),
      (s_commuting_to_work, s_at_work),
      (s_at_work, s_commuting_to_lunch),
      (s_commuting_to_lunch, s_at_lunch),
      (s_at_lunch, s_returning_from_lunch),
      (s_returning_from_lunch, s_at_work),
      (s_commuting_to_lunch, s_commuting_home),
      (s_at_lunch, s_commuting_home),
      (s_returning_from_lunch, s_commuting_home),
      (s_at_work, s_commuting_home),
      (s_commuting_home, s_at_home_just_arrived),
      (s_at_home_just_arrived, s_considering_leisure),
      (s_at_home_just_arrived, s_evening_at_home),
      (s_considering_leisure, s_commuting_to_leisure),
      (s_commuting_to_leisure, s_at_leisure),
      (s_at_leisure, s_commuting_home_from_leisure),
      (s_commuting_home_from_leisure, s_evening_at_home),
      (s_evening_at_home, s_asleep)]"

definition specEdge :: "sphase \<Rightarrow> sphase \<Rightarrow> bool" where
  "specEdge p q \<longleftrightarrow> (p, q) \<in> set specEdges"

text \<open>The phase of the design that a phase of the code stands for.\<close>

fun specPhase :: "phase \<Rightarrow> sphase" where
  "specPhase sleeping = s_asleep"
| "specPhase waiting_for_work = s_waiting_for_departure"
| "specPhase commuting_to_work = s_commuting_to_work"
| "specPhase at_work = s_at_work"
| "specPhase commuting_to_lunch = s_commuting_to_lunch"
| "specPhase at_lunch = s_at_lunch"
| "specPhase returning_from_lunch = s_returning_from_lunch"
| "specPhase commuting_home_from_work = s_commuting_home"
| "specPhase at_home_considering_leisure = s_considering_leisure"
| "specPhase commuting_to_leisure = s_commuting_to_leisure"
| "specPhase at_leisure = s_at_leisure"
| "specPhase commuting_home_from_leisure = s_commuting_home_from_leisure"
| "specPhase at_home_evening = s_evening_at_home"
| "specPhase asleep_night = s_asleep"

text \<open>
  What the code does besides.  On arriving home from work it decides about leisure within
  the same call: two edges of the graph, through \<open>at-home-just-arrived\<close>.  When a route is
  not found it skips the travel phase: heading home it goes on to the decision about
  leisure or to the evening, after lunch it is back at work, and instead of leaving for
  leisure it stays home for the evening.
\<close>

definition arrivalStep :: "phase \<Rightarrow> phase \<Rightarrow> bool" where
  "arrivalStep p q \<longleftrightarrow>
     specEdge (specPhase p) s_at_home_just_arrived \<and> specEdge s_at_home_just_arrived (specPhase q)"

definition noRouteStep :: "agent \<Rightarrow> phase \<Rightarrow> phase \<Rightarrow> bool" where
  "noRouteStep a p q \<longleftrightarrow>
     (routeFrom a (home a) = Some None \<and>
        (p = at_work \<or> p = commuting_to_lunch \<or> p = at_lunch \<or> p = returning_from_lunch) \<and>
        (q = at_home_considering_leisure \<or> q = at_home_evening))
   \<or> (routeFrom a (home a) = Some None \<and> p = at_leisure \<and> q = at_home_evening)
   \<or> (routeFrom a (workplace a) = Some None \<and> p = at_lunch \<and> q = at_work)
   \<or> ((case leisureSpot a of None \<Rightarrow> False | Some l \<Rightarrow> routeFrom a l = Some None) \<and>
        p = at_home_considering_leisure \<and> q = at_home_evening)"

lemma upd_phase_simple:
  "upd_sleeping a t = Some a' \<Longrightarrow> phase a' = phase a \<or> phase a' = waiting_for_work"
  "upd_waiting_for_work a t = Some a' \<Longrightarrow> phase a' = phase a \<or> phase a' = commuting_to_work"
  "upd_commuting_to_work a t dt = Some a' \<Longrightarrow> phase a' = phase a \<or> phase a' = at_work"
  "upd_commuting_to_leisure a t dt = Some a' \<Longrightarrow> phase a' = phase a \<or> phase a' = at_leisure"
  "upd_commuting_home_from_leisure a t dt = Some a' \<Longrightarrow> phase a' = phase a \<or> phase a' = at_home_evening"
  "upd_at_home_evening a t = Some a' \<Longrightarrow> phase a' = phase a \<or> phase a' = asleep_night"
  "upd_commuting_home_from_work a t dt r = Some a' \<Longrightarrow>
     phase a' = phase a \<or> phase a' = at_home_considering_leisure \<or> phase a' = at_home_evening"
  by (auto simp: upd_defs Let_def navigateTo_keeps moveAlongPath_keeps decideLeisure_phase
           split: option.splits if_splits prod.splits)

lemma headHome_phase:
  assumes "headHome a t np r = Some a'"
  shows "phase a' = np \<or>
         (routeFrom a (home a) = Some None \<and>
          (if np = commuting_home_from_work
           then phase a' = at_home_considering_leisure \<or> phase a' = at_home_evening
           else phase a' = at_home_evening))"
  using headHome_cases[OF assms] by (auto split: if_splits)

lemma upd_at_work_phase:
  assumes "upd_at_work a t r = Some a'"
  shows "phase a' = phase a \<or> phase a' = commuting_to_lunch \<or> phase a' = commuting_home_from_work \<or>
         (routeFrom a (home a) = Some None \<and>
          (phase a' = at_home_considering_leisure \<or> phase a' = at_home_evening))"
proof -
  define a1 where "a1 = (if ordersDelivery a \<and> \<not> orderedDelivery a \<and> geqOpt t (orderTime a)
                then logEvent (a\<lparr>orderedDelivery := True\<rparr>)
                       ''Ordered delivery'' t (nameAt a (eatery a))
                else a)"
  have a1: "phase a1 = phase a" "home a1 = home a" "routeFrom a1 tg = routeFrom a tg" for tg
    by (simp_all add: a1_def routeFrom_def logEvent_def)
  show ?thesis
  proof (cases "\<not> hadLunch a1 \<and> takesLunch a1 \<and> geq t (lunchStart a1)")
    case True
    with assms a1(1) show ?thesis
      by (auto simp: upd_at_work_def a1_def[symmetric] Let_def navigateTo_keeps
               split: option.splits if_splits)
  next
    case False
    show ?thesis
    proof (cases "t \<ge> workEnd a1")
      case True
      with assms False
      have "headHome (logEvent a1 ''Left work'' t (nameAt a1 (Some (workplace a1))))
                  t commuting_home_from_work r = Some a'"
        by (auto simp: upd_at_work_def a1_def[symmetric] Let_def)
      from headHome_phase[OF this] a1 show ?thesis by auto
    next
      case nle: False
      with assms False have "a' = a1"
        by (auto simp: upd_at_work_def a1_def[symmetric] Let_def)
      with a1 show ?thesis by simp
    qed
  qed
qed

lemma upd_lunch_phase:
  "upd_commuting_to_lunch a t dt r = Some a' \<Longrightarrow>
     phase a' = phase a \<or> phase a' = at_lunch \<or> phase a' = commuting_home_from_work \<or>
     (routeFrom a (home a) = Some None \<and>
      (phase a' = at_home_considering_leisure \<or> phase a' = at_home_evening))"
  "upd_at_lunch a t r = Some a' \<Longrightarrow>
     phase a' = phase a \<or> phase a' = returning_from_lunch \<or> phase a' = commuting_home_from_work \<or>
     (routeFrom a (workplace a) = Some None \<and> phase a' = at_work) \<or>
     (routeFrom a (home a) = Some None \<and>
      (phase a' = at_home_considering_leisure \<or> phase a' = at_home_evening))"
  "upd_returning_from_lunch a t dt r = Some a' \<Longrightarrow>
     phase a' = phase a \<or> phase a' = at_work \<or> phase a' = commuting_home_from_work \<or>
     (routeFrom a (home a) = Some None \<and>
      (phase a' = at_home_considering_leisure \<or> phase a' = at_home_evening))"
  "upd_at_leisure a t r = Some a' \<Longrightarrow>
     phase a' = phase a \<or> phase a' = commuting_home_from_leisure \<or>
     (routeFrom a (home a) = Some None \<and> phase a' = at_home_evening)"
  "upd_at_home_considering_leisure a t = Some a' \<Longrightarrow>
     phase a' = phase a \<or> phase a' = commuting_to_leisure \<or>
     ((case leisureSpot a of None \<Rightarrow> False | Some l \<Rightarrow> routeFrom a l = Some None) \<and>
      phase a' = at_home_evening)"
  by (auto simp: upd_defs Let_def navigateTo_keeps moveAlongPath_keeps
           split: option.splits if_splits prod.splits
           dest!: headHome_phase navigateTo_path)

lemma update_phase_cases:
  assumes "update a t dt r = Some a'"
  shows "phase a' = phase a \<or> specEdge (specPhase (phase a)) (specPhase (phase a')) \<or>
         arrivalStep (phase a) (phase a') \<or> noRouteStep a (phase a) (phase a')"
proof (cases "phase a")
  case sleeping
  with assms upd_phase_simple(1)[of a t a'] show ?thesis
    by (auto simp: update_def specEdge_def specEdges_def)
next
  case waiting_for_work
  with assms upd_phase_simple(2)[of a t a'] show ?thesis
    by (auto simp: update_def specEdge_def specEdges_def)
next
  case commuting_to_work
  with assms upd_phase_simple(3)[of a t dt a'] show ?thesis
    by (auto simp: update_def specEdge_def specEdges_def)
next
  case at_work
  with assms upd_at_work_phase[of a t r a'] show ?thesis
    by (auto simp: update_def specEdge_def specEdges_def noRouteStep_def)
next
  case commuting_to_lunch
  with assms upd_lunch_phase(1)[of a t dt r a'] show ?thesis
    by (auto simp: update_def specEdge_def specEdges_def noRouteStep_def)
next
  case at_lunch
  with assms upd_lunch_phase(2)[of a t r a'] show ?thesis
    by (auto simp: update_def specEdge_def specEdges_def noRouteStep_def)
next
  case returning_from_lunch
  with assms upd_lunch_phase(3)[of a t dt r a'] show ?thesis
    by (auto simp: update_def specEdge_def specEdges_def noRouteStep_def)
next
  case commuting_home_from_work
  with assms upd_phase_simple(7)[of a t dt r a'] show ?thesis
    by (auto simp: update_def specEdge_def specEdges_def arrivalStep_def)
next
  case at_home_considering_leisure
  with assms upd_lunch_phase(5)[of a t a'] show ?thesis
    by (auto simp: update_def specEdge_def specEdges_def noRouteStep_def)
next
  case commuting_to_leisure
  with assms upd_phase_simple(4)[of a t dt a'] show ?thesis
    by (auto simp: update_def specEdge_def specEdges_def)
next
  case at_leisure
  with assms upd_lunch_phase(4)[of a t r a'] show ?thesis
    by (auto simp: update_def specEdge_def specEdges_def noRouteStep_def)
next
  case commuting_home_from_leisure
  with assms upd_phase_simple(5)[of a t dt a'] show ?thesis
    by (auto simp: update_def specEdge_def specEdges_def)
next
  case at_home_evening
  with assms upd_phase_simple(6)[of a t a'] show ?thesis
    by (auto simp: update_def specEdge_def specEdges_def)
next
  case asleep_night
  with assms show ?thesis by (simp add: update_def)
qed

subsection \<open>The decision about leisure\<close>

lemma upd_work_arrival:
  assumes "upd_commuting_home_from_work a t dt r = Some a'"
    and "phase a' = at_home_considering_leisure \<or> phase a' = at_home_evening"
    and "phase a = commuting_home_from_work"
  shows "(phase a' = at_home_considering_leisure) =
         (wantsLeisure a \<and> leisureSpot a \<noteq> None \<and> estimatedReturn a t \<le> curfew a)"
proof -
  obtain a1 arrived where m: "moveAlongPath a dt = (a1, arrived)"
    by (cases "moveAlongPath a dt")
  note k = moveAlongPath_keeps[OF m] schedule_fields[OF moveAlongPath_keeps(1)[OF m]]
  show ?thesis
  proof (cases arrived)
    case True
    with assms(1) m have "a' = decideLeisure
                   (logEvent (a1\<lparr>state := st_home\<rparr>) ''Arrived home'' t (nameAt a1 (Some (home a1)))) t r"
      by (simp add: upd_commuting_home_from_work_def)
    then show ?thesis
      using k by (simp add: decideLeisure_phase logEvent_def estimatedReturn_def)
  next
    case False
    with assms(1) m have "a' = a1" by (simp add: upd_commuting_home_from_work_def)
    with k(2) assms(2,3) show ?thesis by simp
  qed
qed

lemma headHome_decision:
  assumes "headHome a t commuting_home_from_work r = Some a'"
    and "phase a' = at_home_considering_leisure \<or> phase a' = at_home_evening"
  shows "(phase a' = at_home_considering_leisure) =
         (wantsLeisure a \<and> leisureSpot a \<noteq> None \<and> estimatedReturn a t \<le> curfew a)"
  using headHome_cases[OF assms(1)] assms(2) by (auto split: if_splits)

lemma logEvent_decision [simp]:
  "wantsLeisure (logEvent a ev t l) = wantsLeisure a"
  "leisureSpot (logEvent a ev t l) = leisureSpot a"
  "leisureDuration (logEvent a ev t l) = leisureDuration a"
  "curfew (logEvent a ev t l) = curfew a"
  by (simp_all add: logEvent_def)

lemma upd_at_work_decision:
  assumes "upd_at_work a t r = Some a'"
    and "phase a' = at_home_considering_leisure \<or> phase a' = at_home_evening"
    and "phase a = at_work"
  shows "(phase a' = at_home_considering_leisure) =
         (wantsLeisure a \<and> leisureSpot a \<noteq> None \<and> estimatedReturn a t \<le> curfew a)"
proof -
  define a1 where "a1 = (if ordersDelivery a \<and> \<not> orderedDelivery a \<and> geqOpt t (orderTime a)
                then logEvent (a\<lparr>orderedDelivery := True\<rparr>)
                       ''Ordered delivery'' t (nameAt a (eatery a))
                else a)"
  have a1: "phase a1 = phase a" "wantsLeisure a1 = wantsLeisure a" "leisureSpot a1 = leisureSpot a"
    "leisureDuration a1 = leisureDuration a" "curfew a1 = curfew a"
    "estimatedReturn a1 t = estimatedReturn a t"
    by (simp_all add: a1_def logEvent_def estimatedReturn_def)
  show ?thesis
  proof (cases "\<not> hadLunch a1 \<and> takesLunch a1 \<and> geq t (lunchStart a1)")
    case True
    with assms a1(1) show ?thesis
      by (auto simp: upd_at_work_def a1_def[symmetric] Let_def navigateTo_keeps
               split: option.splits if_splits)
  next
    case False
    show ?thesis
    proof (cases "t \<ge> workEnd a1")
      case True
      with assms False
      have "headHome (logEvent a1 ''Left work'' t (nameAt a1 (Some (workplace a1))))
                  t commuting_home_from_work r = Some a'"
        by (auto simp: upd_at_work_def a1_def[symmetric] Let_def)
      from headHome_decision[OF this assms(2)] a1 show ?thesis by simp
    next
      case nle: False
      with assms False have "a' = a1"
        by (auto simp: upd_at_work_def a1_def[symmetric] Let_def)
      with a1 assms(2,3) show ?thesis by simp
    qed
  qed
qed

lemma upd_lunch_decision:
  "upd_commuting_to_lunch a t dt r = Some a' \<Longrightarrow>
   phase a' = at_home_considering_leisure \<or> phase a' = at_home_evening \<Longrightarrow>
   phase a = commuting_to_lunch \<Longrightarrow>
   (phase a' = at_home_considering_leisure) =
   (wantsLeisure a \<and> leisureSpot a \<noteq> None \<and> estimatedReturn a t \<le> curfew a)"
  "upd_at_lunch a t r = Some a' \<Longrightarrow>
   phase a' = at_home_considering_leisure \<or> phase a' = at_home_evening \<Longrightarrow>
   phase a = at_lunch \<Longrightarrow>
   (phase a' = at_home_considering_leisure) =
   (wantsLeisure a \<and> leisureSpot a \<noteq> None \<and> estimatedReturn a t \<le> curfew a)"
  "upd_returning_from_lunch a t dt r = Some a' \<Longrightarrow>
   phase a' = at_home_considering_leisure \<or> phase a' = at_home_evening \<Longrightarrow>
   phase a = returning_from_lunch \<Longrightarrow>
   (phase a' = at_home_considering_leisure) =
   (wantsLeisure a \<and> leisureSpot a \<noteq> None \<and> estimatedReturn a t \<le> curfew a)"
  by (auto simp: upd_defs Let_def navigateTo_keeps moveAlongPath_keeps
           split: option.splits if_splits prod.splits
           dest: headHome_decision)

text \<open>
  The condition of the decision, as the language evaluates it: the three additions of
  the estimate are rounded.
\<close>

definition leisureFits :: "agent \<Rightarrow> real \<Rightarrow> bool" where
  "leisureFits a t \<longleftrightarrow>
     wantsLeisure a \<and> leisureSpot a \<noteq> None \<and>
     plus64 (plus64 (plus64 t 0.5) (leisureDuration a)) 0.5 \<le> curfew a"

lemma leisureFits_estimate:
  "leisureFits a t = (wantsLeisure a \<and> leisureSpot a \<noteq> None \<and> estimatedReturn a t \<le> curfew a)"
  by (simp add: leisureFits_def estimatedReturn_def)

lemma leisureFits_cong: "schedule b = schedule a \<Longrightarrow> leisureFits b t = leisureFits a t"
  by (simp add: leisureFits_def schedule_def)

lemma leisureFits_exact:
  assumes "plus64 t 0.5 = t + 0.5"
    and "plus64 (t + 0.5) (leisureDuration a) = t + 0.5 + leisureDuration a"
    and "plus64 (t + 0.5 + leisureDuration a) 0.5 = t + 0.5 + leisureDuration a + 0.5"
  shows "leisureFits a t =
         (wantsLeisure a \<and> leisureSpot a \<noteq> None \<and> t + 0.5 + leisureDuration a + 0.5 \<le> curfew a)"
  using assms by (simp add: leisureFits_def)

text \<open>Whatever call takes an actor from work to one of the two phases at home has
  decided by this condition, and no call enters \<open>considering-leisure\<close> without it.\<close>

lemma decision_outcome:
  assumes "update a t dt r = Some a'"
  shows "(phase a = commuting_home_from_work \<or> phase a = at_work \<or> phase a = commuting_to_lunch \<or>
          phase a = at_lunch \<or> phase a = returning_from_lunch) \<Longrightarrow>
         phase a' = at_home_considering_leisure \<or> phase a' = at_home_evening \<Longrightarrow>
         (phase a' = at_home_considering_leisure) = leisureFits a t"
    and "phase a \<noteq> at_home_considering_leisure \<Longrightarrow> phase a' = at_home_considering_leisure \<Longrightarrow>
         leisureFits a t"
proof -
  let ?fits = "wantsLeisure a \<and> leisureSpot a \<noteq> None \<and> estimatedReturn a t \<le> curfew a"
  have work: "(phase a' = at_home_considering_leisure) = ?fits"
    if "phase a = commuting_home_from_work \<or> phase a = at_work \<or> phase a = commuting_to_lunch \<or>
        phase a = at_lunch \<or> phase a = returning_from_lunch"
      and "phase a' = at_home_considering_leisure \<or> phase a' = at_home_evening"
    using that assms(1)
      upd_work_arrival[of a t dt r a'] upd_at_work_decision[of a t r a']
      upd_lunch_decision(1)[of a t dt r a'] upd_lunch_decision(2)[of a t r a']
      upd_lunch_decision(3)[of a t dt r a']
    by (auto simp: update_def)
  have enter: "phase a = commuting_home_from_work \<or> phase a = at_work \<or> phase a = commuting_to_lunch \<or>
        phase a = at_lunch \<or> phase a = returning_from_lunch"
    if "phase a \<noteq> at_home_considering_leisure" and "phase a' = at_home_considering_leisure"
    using that update_phase_cases[OF assms(1)]
    by (cases "phase a")
       (auto simp: specEdge_def specEdges_def arrivalStep_def noRouteStep_def)
  show "(phase a' = at_home_considering_leisure) = leisureFits a t"
    if "phase a = commuting_home_from_work \<or> phase a = at_work \<or> phase a = commuting_to_lunch \<or>
        phase a = at_lunch \<or> phase a = returning_from_lunch"
      and "phase a' = at_home_considering_leisure \<or> phase a' = at_home_evening"
    using work[OF that] by (simp add: leisureFits_estimate)
  show "leisureFits a t"
    if "phase a \<noteq> at_home_considering_leisure" and "phase a' = at_home_considering_leisure"
    using work[OF enter[OF that]] that(2) by (simp add: leisureFits_estimate)
qed

text \<open>
  The calls that arrive home after work.  At the end of the evening commute, the call in
  which \<open>_moveAlongPath\<close> returns \<open>true\<close> logs the arrival and decides.
\<close>

lemma commute_arrival:
  assumes "phase a = commuting_home_from_work" and "snd (moveAlongPath a dt)"
  shows "\<exists>a'. update a t dt r = Some a' \<and>
              phase a' = (if leisureFits a t then at_home_considering_leisure else at_home_evening) \<and>
              event (last (eventLog a')) = ''Arrived home'' \<and> time (last (eventLog a')) = t"
proof -
  from assms(2) obtain a1 where m: "moveAlongPath a dt = (a1, True)"
    by (cases "moveAlongPath a dt") auto
  note k = moveAlongPath_keeps[OF m]
  define b where "b = logEvent (a1\<lparr>state := st_home\<rparr>) ''Arrived home'' t (nameAt a1 (Some (home a1)))"
  have upd: "update a t dt r = Some (decideLeisure b t r)"
    using assms(1) m by (simp add: update_def upd_commuting_home_from_work_def b_def)
  have "schedule b = schedule a" using k(1) by (simp add: b_def)
  then have fits: "leisureFits b t = leisureFits a t" by (rule leisureFits_cong)
  have ph: "phase (decideLeisure b t r) =
            (if leisureFits a t then at_home_considering_leisure else at_home_evening)"
    using fits by (simp add: decideLeisure_phase leisureFits_estimate)
  have log: "event (last (eventLog (decideLeisure b t r))) = ''Arrived home''"
    "time (last (eventLog (decideLeisure b t r))) = t"
    by (simp_all add: b_def logEvent_def)
  from upd ph log show ?thesis by simp
qed

subsection \<open>Calls that ask for a route\<close>

text \<open>
  The route a call asks for, by the guards of \<open>update\<close>: the target, and whether the
  request is made by \<open>_headHome\<close>.
\<close>

definition routeRequest :: "agent \<Rightarrow> real \<Rightarrow> (cell \<times> bool) option" where
  "routeRequest a t =
     (case phase a of
        waiting_for_work \<Rightarrow> if t \<ge> workStart a then Some (workplace a, False) else None
      | at_work \<Rightarrow>
          if \<not> hadLunch a \<and> takesLunch a \<and> geq t (lunchStart a)
          then (if ordersDelivery a then None
                else (case eatery a of None \<Rightarrow> None | Some e \<Rightarrow> Some (e, False)))
          else if t \<ge> workEnd a then Some (home a, True) else None
      | commuting_to_lunch \<Rightarrow> if t \<ge> workEnd a then Some (home a, True) else None
      | at_lunch \<Rightarrow>
          if t \<ge> workEnd a then Some (home a, True)
          else if geq t (lunchEnd a) then Some (workplace a, False) else None
      | returning_from_lunch \<Rightarrow>
          if t \<ge> workEnd a \<and> path a = None then Some (home a, True) else None
      | at_home_considering_leisure \<Rightarrow>
          if geqOpt t (leisureDepartureTime a)
          then (case leisureSpot a of None \<Rightarrow> None | Some l \<Rightarrow> Some (l, False))
          else None
      | at_leisure \<Rightarrow> if geqOpt t (leisureEndTime a) then Some (home a, True) else None
      | _ \<Rightarrow> None)"

lemma navigateTo_none:
  assumes "navigateTo a (Some tg) = Some a'" and "routeFrom a tg = Some None"
  shows "path a' = None" "x a' = x a" "y a' = y a" "phase a' = phase a"
  using navigateTo_path[OF assms(1)] assms(2) navigateTo_keeps[OF assms(1)] by auto

lemma headHome_none:
  assumes "headHome a t np r = Some a'" and "routeFrom a (home a) = Some None"
  shows "path a' = None \<and> x a' = real_of_int (fst (home a)) \<and> y a' = real_of_int (snd (home a)) \<and>
         (phase a' = at_home_considering_leisure \<or> phase a' = at_home_evening)"
  using headHome_cases[OF assms(1)] assms(2) by (auto split: if_splits)

lemma routeFrom_fields:
  "city b = city a \<Longrightarrow> x b = x a \<Longrightarrow> y b = y a \<Longrightarrow> routeFrom b tg = routeFrom a tg"
  by (simp add: routeFrom_def)

lemma upd_at_work_no_route:
  assumes "upd_at_work a t r = Some a'" and "phase a = at_work"
    and "routeRequest a t = Some (tg, goingHome)" and "routeFrom a tg = Some None"
  shows "path a' = None \<and>
         (if goingHome
          then x a' = real_of_int (fst (home a)) \<and> y a' = real_of_int (snd (home a)) \<and>
               (phase a' = at_home_considering_leisure \<or> phase a' = at_home_evening)
          else x a' = x a \<and> y a' = y a \<and> phase a' = at_work)"
proof -
  define a1 where "a1 = (if ordersDelivery a \<and> \<not> orderedDelivery a \<and> geqOpt t (orderTime a)
                then logEvent (a\<lparr>orderedDelivery := True\<rparr>)
                       ''Ordered delivery'' t (nameAt a (eatery a))
                else a)"
  have a1: "phase a1 = phase a" "hadLunch a1 = hadLunch a" "takesLunch a1 = takesLunch a"
    "lunchStart a1 = lunchStart a" "ordersDelivery a1 = ordersDelivery a" "eatery a1 = eatery a"
    "workEnd a1 = workEnd a" "home a1 = home a" "x a1 = x a" "y a1 = y a" "city a1 = city a"
    by (simp_all add: a1_def logEvent_def)
  show ?thesis
  proof (cases "\<not> hadLunch a \<and> takesLunch a \<and> geq t (lunchStart a)")
    case True
    with assms(2,3) obtain e where e: "\<not> ordersDelivery a" "eatery a = Some e" "tg = e" "\<not> goingHome"
      by (auto simp: routeRequest_def split: if_splits option.splits)
    define a3 where "a3 = logEvent (a\<lparr>hadLunch := True\<rparr>) ''Left for lunch'' t
                            (nameAt (a\<lparr>hadLunch := True\<rparr>) (Some (workplace a)))"
    have a3: "x a3 = x a" "y a3 = y a" "phase a3 = phase a" "eatery a3 = Some e" "city a3 = city a"
      using e by (simp_all add: a3_def logEvent_def)
    from assms(1) True e a3(4) obtain a4 where
      nav: "navigateTo a3 (Some e) = Some a4"
      and a': "a' = (if path a4 \<noteq> None then a4\<lparr>phase := commuting_to_lunch, state := st_traveling\<rparr> else a4)"
      by (auto simp: upd_at_work_def a3_def[symmetric] Let_def
               split: option.splits if_splits)
    have "routeFrom a3 e = Some None"
      using assms(4) e(3) routeFrom_fields[OF a3(5,1,2)] by simp
    from navigateTo_none[OF nav this] a' a3 e(4) assms(2) show ?thesis by simp
  next
    case False
    with assms(2,3) have req: "t \<ge> workEnd a" "tg = home a" "goingHome"
      by (auto simp: routeRequest_def split: if_splits)
    with assms(1) False a1
    have hh: "headHome (logEvent a1 ''Left work'' t (nameAt a1 (Some (workplace a1))))
                  t commuting_home_from_work r = Some a'"
      by (auto simp: upd_at_work_def a1_def[symmetric] Let_def)
    have "routeFrom (logEvent a1 ''Left work'' t (nameAt a1 (Some (workplace a1)))) (home a) = Some None"
      using assms(4) req(2) routeFrom_fields[OF a1(11,9,10)] by simp
    with headHome_none[OF hh] a1 req(3) show ?thesis by simp
  qed
qed

lemma upd_other_no_route:
  "upd_waiting_for_work a t = Some a' \<Longrightarrow> phase a = waiting_for_work \<Longrightarrow>
   routeRequest a t = Some (tg, goingHome) \<Longrightarrow> routeFrom a tg = Some None \<Longrightarrow>
   path a' = None \<and> \<not> goingHome \<and> x a' = x a \<and> y a' = y a \<and> phase a' = phase a"
  "upd_commuting_to_lunch a t dt r = Some a' \<Longrightarrow> phase a = commuting_to_lunch \<Longrightarrow>
   routeRequest a t = Some (tg, goingHome) \<Longrightarrow> routeFrom a tg = Some None \<Longrightarrow>
   path a' = None \<and> goingHome \<and> x a' = real_of_int (fst (home a)) \<and> y a' = real_of_int (snd (home a)) \<and>
   (phase a' = at_home_considering_leisure \<or> phase a' = at_home_evening)"
  "upd_at_lunch a t r = Some a' \<Longrightarrow> phase a = at_lunch \<Longrightarrow>
   routeRequest a t = Some (tg, goingHome) \<Longrightarrow> routeFrom a tg = Some None \<Longrightarrow>
   path a' = None \<and>
   (if goingHome
    then x a' = real_of_int (fst (home a)) \<and> y a' = real_of_int (snd (home a)) \<and>
         (phase a' = at_home_considering_leisure \<or> phase a' = at_home_evening)
    else x a' = x a \<and> y a' = y a \<and> phase a' = at_work)"
  "upd_returning_from_lunch a t dt r = Some a' \<Longrightarrow> phase a = returning_from_lunch \<Longrightarrow>
   routeRequest a t = Some (tg, goingHome) \<Longrightarrow> routeFrom a tg = Some None \<Longrightarrow>
   path a' = None \<and> goingHome \<and> x a' = real_of_int (fst (home a)) \<and> y a' = real_of_int (snd (home a)) \<and>
   (phase a' = at_home_considering_leisure \<or> phase a' = at_home_evening)"
  "upd_at_home_considering_leisure a t = Some a' \<Longrightarrow> phase a = at_home_considering_leisure \<Longrightarrow>
   routeRequest a t = Some (tg, goingHome) \<Longrightarrow> routeFrom a tg = Some None \<Longrightarrow>
   path a' = None \<and> \<not> goingHome \<and> x a' = x a \<and> y a' = y a \<and> phase a' = at_home_evening"
  "upd_at_leisure a t r = Some a' \<Longrightarrow> phase a = at_leisure \<Longrightarrow>
   routeRequest a t = Some (tg, goingHome) \<Longrightarrow> routeFrom a tg = Some None \<Longrightarrow>
   path a' = None \<and> goingHome \<and> x a' = real_of_int (fst (home a)) \<and> y a' = real_of_int (snd (home a)) \<and>
   (phase a' = at_home_considering_leisure \<or> phase a' = at_home_evening)"
  by (auto simp: upd_defs routeRequest_def Let_def
           split: option.splits if_splits
           dest: navigateTo_none headHome_none)

text \<open>
  Heading home from work without a route: \<open>_headHome\<close> places the actor home, logs the
  arrival and decides.
\<close>

lemma headHome_snap:
  assumes "routeFrom a (home a) = Some None" and "schedule b = schedule a"
    and "x b = x a" and "y b = y a"
  shows "\<exists>a'. headHome b t commuting_home_from_work r = Some a' \<and>
              phase a' = (if leisureFits a t then at_home_considering_leisure else at_home_evening) \<and>
              event (last (eventLog a')) = ''Arrived home'' \<and> time (last (eventLog a')) = t"
proof -
  note f = schedule_fields[OF assms(2)]
  have "routeFrom b (home b) = Some None"
    using assms(1) f(1) routeFrom_fields[OF f(5) assms(3,4)] by simp
  then obtain a1 where nav: "navigateTo b (Some (home b)) = Some a1" and p: "path a1 = None"
    by (auto simp: navigateTo_def routeFrom_def Let_def)
  note k = navigateTo_keeps[OF nav]
  define a2 where "a2 = logEvent (a1\<lparr>x := real_of_int (fst (home a1)), y := real_of_int (snd (home a1)),
                                   state := st_home\<rparr>)
                        ''Arrived home'' t (nameAt a1 (Some (home a1)))"
  have hh: "headHome b t commuting_home_from_work r = Some (decideLeisure a2 t r)"
    using nav p by (simp add: headHome_def a2_def Let_def)
  have "schedule a2 = schedule a" using k(1) assms(2) by (simp add: a2_def)
  then have fits: "leisureFits a2 t = leisureFits a t" by (rule leisureFits_cong)
  have ph: "phase (decideLeisure a2 t r) =
            (if leisureFits a t then at_home_considering_leisure else at_home_evening)"
    using fits by (simp add: decideLeisure_phase leisureFits_estimate)
  have log: "event (last (eventLog (decideLeisure a2 t r))) = ''Arrived home''"
    "time (last (eventLog (decideLeisure a2 t r))) = t"
    by (simp_all add: a2_def logEvent_def)
  from hh ph log show ?thesis by simp
qed

lemma snap_arrival:
  assumes "phase a = at_work \<or> phase a = commuting_to_lunch \<or> phase a = at_lunch \<or>
           phase a = returning_from_lunch"
    and "routeRequest a t = Some (home a, True)" and "routeFrom a (home a) = Some None"
  shows "\<exists>a'. update a t dt r = Some a' \<and>
              phase a' = (if leisureFits a t then at_home_considering_leisure else at_home_evening) \<and>
              event (last (eventLog a')) = ''Arrived home'' \<and> time (last (eventLog a')) = t"
proof -
  consider "phase a = at_work" | "phase a = commuting_to_lunch" | "phase a = at_lunch"
    | "phase a = returning_from_lunch"
    using assms(1) by blast
  then show ?thesis
  proof cases
    case 1
    define a1 where "a1 = (if ordersDelivery a \<and> \<not> orderedDelivery a \<and> geqOpt t (orderTime a)
                then logEvent (a\<lparr>orderedDelivery := True\<rparr>)
                       ''Ordered delivery'' t (nameAt a (eatery a))
                else a)"
    have a1: "schedule a1 = schedule a" "x a1 = x a" "y a1 = y a" "hadLunch a1 = hadLunch a"
      by (simp_all add: a1_def)
    note f = schedule_fields[OF a1(1)]
    from 1 assms(2) have g: "\<not> (\<not> hadLunch a \<and> takesLunch a \<and> geq t (lunchStart a))" "t \<ge> workEnd a"
      by (auto simp: routeRequest_def split: if_splits option.splits)
    define b where "b = logEvent a1 ''Left work'' t (nameAt a1 (Some (workplace a1)))"
    have upd: "update a t dt r = headHome b t commuting_home_from_work r"
      using 1 g a1(4) f(6,7,8)
      by (auto simp: update_def upd_at_work_def a1_def[symmetric] b_def Let_def)
    have b: "schedule b = schedule a" "x b = x a" "y b = y a"
      using a1 by (simp_all add: b_def)
    from headHome_snap[OF assms(3) b] upd show ?thesis by simp
  next
    case 2
    from 2 assms(2) have g: "t \<ge> workEnd a"
      by (auto simp: routeRequest_def split: if_splits)
    define b where "b = logEvent a ''Left work'' t None"
    have upd: "update a t dt r = headHome b t commuting_home_from_work r"
      using 2 g by (simp add: update_def upd_commuting_to_lunch_def b_def)
    have b: "schedule b = schedule a" "x b = x a" "y b = y a" by (simp_all add: b_def)
    from headHome_snap[OF assms(3) b] upd show ?thesis by simp
  next
    case 3
    from 3 assms(2) have g: "t \<ge> workEnd a"
      by (auto simp: routeRequest_def split: if_splits)
    define b where "b = logEvent a ''Left eatery (late)'' t (nameAt a (eatery a))"
    have upd: "update a t dt r = headHome b t commuting_home_from_work r"
      using 3 g by (simp add: update_def upd_at_lunch_def b_def)
    have b: "schedule b = schedule a" "x b = x a" "y b = y a" by (simp_all add: b_def)
    from headHome_snap[OF assms(3) b] upd show ?thesis by simp
  next
    case 4
    from 4 assms(2) have g: "t \<ge> workEnd a \<and> path a = None"
      by (auto simp: routeRequest_def split: if_splits)
    define b where "b = logEvent a ''Left work'' t None"
    have upd: "update a t dt r = headHome b t commuting_home_from_work r"
      using 4 g by (simp add: update_def upd_returning_from_lunch_def b_def)
    have b: "schedule b = schedule a" "x b = x a" "y b = y a" by (simp_all add: b_def)
    from headHome_snap[OF assms(3) b] upd show ?thesis by simp
  qed
qed

subsection \<open>Sequences of calls, and two small cities\<close>

text \<open>The actor after a sequence of calls \<open>(simHours, deltaSeconds, random value)\<close>.\<close>

fun updates :: "agent \<Rightarrow> (real \<times> real \<times> real) list \<Rightarrow> agent option" where
  "updates a [] = Some a"
| "updates a ((t, dt, r) # ts) = (case update a t dt r of None \<Rightarrow> None | Some a' \<Rightarrow> updates a' ts)"

text \<open>
  A street of five cells.  The workplace stands between two stretches of road that meet
  nowhere else: the home is on the first, the eatery (or the leisure site) on the second.
\<close>

definition cityGap :: city where
  "cityGap = \<lparr> cols = 5, rows = 1, grid = [[HOUSE, ROAD, BUSINESS, ROAD, EATERY]],
     tileNames = (\<lambda>_. None) \<rparr>"

definition cityApart :: city where
  "cityApart = \<lparr> cols = 5, rows = 1, grid = [[HOUSE, ROAD, BUSINESS, ROAD, LEISURE]],
     tileNames = (\<lambda>_. None) \<rparr>"

text \<open>
  Two actors built by the constructor with every random value 0: speed 5, work from 6
  to 13, bedtime 20, leisure-eligible.  The first takes lunch at 9.5 at the eatery two
  cells from work; the second has no eatery and a leisure site.
\<close>

definition actorGap :: agent where
  "actorGap = mkAgent 0 (0, 0) (2, 0) None (Some (4, 0)) cityGap (\<lambda>_. 0)"

definition actorApart :: agent where
  "actorApart = mkAgent 0 (0, 0) (2, 0) (Some (4, 0)) None cityApart (\<lambda>_. 0)"

text \<open>The first actor wakes, goes to work, leaves for lunch and walks one cell.\<close>

definition ticksGap :: "(real \<times> real \<times> real) list" where
  "ticksGap = [(5.5, 0.1, 0), (6, 0.1, 0), (6.1, 1, 0), (9.5, 0.1, 0), (9.6, 0.2, 0)]"

definition actorGapLunch :: agent where
  "actorGapLunch = the (updates actorGap ticksGap)"

text \<open>The second actor wakes, goes to work and leaves work at 13; it arrives home one
  call later.\<close>

definition ticksApart :: "(real \<times> real \<times> real) list" where
  "ticksApart = [(5.5, 0.1, 0), (6, 0.1, 0), (6.1, 1, 0), (13, 0.1, 0)]"

definition actorApartCommuting :: agent where
  "actorApartCommuting = the (updates actorApart ticksApart)"

definition actorApartHome :: agent where
  "actorApartHome = the (update actorApartCommuting 13.1 1 0)"

text \<open>
  A third actor, like the second but for one random value: its leisure lasts 2.5 hours.
  Its curfew is 19.  It leaves work at 13 as well.
\<close>

definition actorTie :: agent where
  "actorTie = mkAgent 0 (0, 0) (2, 0) (Some (4, 0)) None cityApart (\<lambda>k. if k = 8 then 0.75 else 0)"

definition actorTieCommuting :: agent where
  "actorTieCommuting = the (updates actorTie ticksApart)"

subsection \<open>Claims about single calls\<close>

text \<open>
  C2, as amended.  After a call of the advance operation the phase is unchanged, or
  reached by one edge of the transition graph, or by the two edges from the evening
  commute through \<open>at-home-just-arrived\<close> (the code decides about leisure within the call
  that arrives), or by one of the steps the code takes when a route is not found.
\<close>

theorem update_phase_step:
  assumes "update a t dt r = Some a'"
  shows "phase a' = phase a \<or> specEdge (specPhase (phase a)) (specPhase (phase a')) \<or>
         arrivalStep (phase a) (phase a') \<or> noRouteStep a (phase a) (phase a')"
  using update_phase_cases[OF assms] .

theorem update_phase_step_witness:
  "\<exists>a'. update actorGap 5.5 0.1 0 = Some a' \<and> phase actorGap = sleeping \<and>
        phase a' = waiting_for_work \<and>
        (phase a' = phase actorGap \<or> specEdge (specPhase (phase actorGap)) (specPhase (phase a')) \<or>
         arrivalStep (phase actorGap) (phase a') \<or> noRouteStep actorGap (phase actorGap) (phase a'))"
proof -
  have "map_option phase (update actorGap 5.5 0.1 0) = Some waiting_for_work"
    by code_simp
  then obtain a' where a': "update actorGap 5.5 0.1 0 = Some a'" "phase a' = waiting_for_work"
    by auto
  moreover have "phase actorGap = sleeping" by code_simp
  ultimately show ?thesis using update_phase_step[OF a'(1)] by blast
qed

text \<open>
  The claim as stated fails: the second actor, home from work, is taken from the evening
  commute to \<open>considering-leisure\<close> by the call that arrives, and from there to
  \<open>evening-at-home\<close> by the call that finds no route to its leisure site.  Neither step
  is an edge of the graph.
\<close>

theorem update_phase_step_counterexample:
  "phase actorApartCommuting = commuting_home_from_work \<and>
   map_option phase (update actorApartCommuting 13.1 1 0) = Some at_home_considering_leisure \<and>
   \<not> specEdge (specPhase commuting_home_from_work) (specPhase at_home_considering_leisure) \<and>
   phase actorApartHome = at_home_considering_leisure \<and>
   map_option phase (update actorApartHome 13.4 0.1 0) = Some at_home_evening \<and>
   \<not> specEdge (specPhase at_home_considering_leisure) (specPhase at_home_evening)"
  by code_simp

text \<open>
  C3, as amended.  When the route a call asks for is not found, no path is stored.  If
  the request was made on the way to work, to lunch, back from lunch or to leisure, the
  position is unchanged and the travel phase is not entered (the actor stays in its
  phase, or is back at work after lunch, or stays home for the evening).  If the request
  was made by heading home, the actor is placed on its home cell and goes on to the
  decision about leisure or to the evening.
\<close>

theorem no_route_position:
  assumes "update a t dt r = Some a'" and "routeRequest a t = Some (tg, goingHome)"
    and "routeFrom a tg = Some None"
  shows "path a' = None \<and>
         (if goingHome
          then x a' = real_of_int (fst (home a)) \<and> y a' = real_of_int (snd (home a)) \<and>
               (phase a' = at_home_considering_leisure \<or> phase a' = at_home_evening)
          else x a' = x a \<and> y a' = y a \<and>
               phase a' = (if phase a = at_lunch then at_work
                           else if phase a = at_home_considering_leisure then at_home_evening
                           else phase a))"
proof (cases "phase a")
  case waiting_for_work
  with assms upd_other_no_route(1)[of a t a' tg goingHome] show ?thesis
    by (simp add: update_def)
next
  case at_work
  with assms upd_at_work_no_route[of a t r a' tg goingHome] show ?thesis
    by (simp add: update_def)
next
  case commuting_to_lunch
  with assms upd_other_no_route(2)[of a t dt r a' tg goingHome] show ?thesis
    by (simp add: update_def)
next
  case at_lunch
  with assms upd_other_no_route(3)[of a t r a' tg goingHome] show ?thesis
    by (simp add: update_def)
next
  case returning_from_lunch
  with assms upd_other_no_route(4)[of a t dt r a' tg goingHome] show ?thesis
    by (simp add: update_def)
next
  case at_home_considering_leisure
  with assms upd_other_no_route(5)[of a t a' tg goingHome] show ?thesis
    by (simp add: update_def)
next
  case at_leisure
  with assms upd_other_no_route(6)[of a t r a' tg goingHome] show ?thesis
    by (simp add: update_def)
qed (use assms(2) in \<open>simp_all add: routeRequest_def\<close>)

theorem no_route_position_witness:
  "\<exists>a'. update actorApartHome 13.4 0.1 0 = Some a' \<and>
        routeRequest actorApartHome 13.4 = Some ((4, 0), False) \<and>
        routeFrom actorApartHome (4, 0) = Some None \<and>
        path a' = None \<and> x a' = x actorApartHome \<and> y a' = y actorApartHome \<and>
        phase actorApartHome = at_home_considering_leisure \<and> phase a' = at_home_evening"
proof -
  have "map_option phase (update actorApartHome 13.4 0.1 0) = Some at_home_evening"
    by code_simp
  then obtain a' where a': "update actorApartHome 13.4 0.1 0 = Some a'" by auto
  have rq: "routeRequest actorApartHome 13.4 = Some ((4, 0), False)" by code_simp
  have nf: "routeFrom actorApartHome (4, 0) = Some None" by code_simp
  have ph: "phase actorApartHome = at_home_considering_leisure" by code_simp
  from no_route_position[OF a' rq nf] ph a' rq nf show ?thesis by simp
qed

text \<open>
  The claim as stated fails in \<open>_headHome\<close>: the first actor is on the road between its
  workplace and the eatery, at cell (3, 0), when the call at 13 (the end of work) finds
  no route home; the call places it on its home cell (0, 0) and takes it from the lunch
  commute to \<open>evening-at-home\<close>.
\<close>

theorem no_route_position_counterexample:
  "phase actorGapLunch = commuting_to_lunch \<and> x actorGapLunch = 3 \<and> y actorGapLunch = 0 \<and>
   routeRequest actorGapLunch 13 = Some ((0, 0), True) \<and>
   routeFrom actorGapLunch (0, 0) = Some None \<and>
   map_option x (update actorGapLunch 13 0.1 0) = Some 0 \<and>
   map_option y (update actorGapLunch 13 0.1 0) = Some 0 \<and>
   map_option phase (update actorGapLunch 13 0.1 0) = Some at_home_evening"
  by code_simp

text \<open>
  C7, as amended.  An actor arrives home after work in the call that ends its evening
  commute (\<open>_moveAlongPath\<close> returns \<open>true\<close>), or in the call that heads home from work,
  from lunch or from the way there or back and finds no route.  That call returns, logs
  \<open>Arrived home\<close> at its hour \<open>t\<close> and proceeds to \<open>considering-leisure\<close> if the actor is
  leisure-eligible, has a leisure site and the estimate \<open>t + 0.5 + leisureDuration + 0.5\<close>,
  each of its three sums rounded to the nearest binary64 value as the language does, is at
  most the curfew (the bedtime minus one hour); otherwise it proceeds to
  \<open>evening-at-home\<close>.  No call enters \<open>considering-leisure\<close> unless this condition holds, and
  every call that takes an actor from work to one of the two phases has decided by it.
  Where the three sums are exact, the condition is the inequality of the exact sum.  Hours
  and durations are taken below \<open>2^1000\<close> in magnitude, where no sum overflows.
\<close>

theorem leisure_decision_on_arrival:
  assumes "\<bar>t\<bar> \<le> 2 ^ 1000" and "\<bar>leisureDuration a\<bar> \<le> 2 ^ 1000"
  shows "(phase a = commuting_home_from_work \<and> snd (moveAlongPath a dt) \<or>
          (phase a = at_work \<or> phase a = commuting_to_lunch \<or> phase a = at_lunch \<or>
           phase a = returning_from_lunch) \<and>
          routeRequest a t = Some (home a, True) \<and> routeFrom a (home a) = Some None
          \<longrightarrow> (\<exists>a'. update a t dt r = Some a' \<and>
                    phase a' = (if leisureFits a t then at_home_considering_leisure
                                else at_home_evening) \<and>
                    event (last (eventLog a')) = ''Arrived home'' \<and>
                    time (last (eventLog a')) = t)) \<and>
         (\<forall>a'. update a t dt r = Some a' \<and> phase a \<noteq> at_home_considering_leisure \<and>
               phase a' = at_home_considering_leisure \<longrightarrow> leisureFits a t) \<and>
         (\<forall>a'. update a t dt r = Some a' \<and>
               (phase a = commuting_home_from_work \<or> phase a = at_work \<or>
                phase a = commuting_to_lunch \<or> phase a = at_lunch \<or>
                phase a = returning_from_lunch) \<and>
               (phase a' = at_home_considering_leisure \<or> phase a' = at_home_evening)
               \<longrightarrow> (phase a' = at_home_considering_leisure) = leisureFits a t) \<and>
         (plus64 t 0.5 = t + 0.5 \<and>
          plus64 (t + 0.5) (leisureDuration a) = t + 0.5 + leisureDuration a \<and>
          plus64 (t + 0.5 + leisureDuration a) 0.5 = t + 0.5 + leisureDuration a + 0.5
          \<longrightarrow> leisureFits a t =
              (wantsLeisure a \<and> leisureSpot a \<noteq> None \<and>
               t + 0.5 + leisureDuration a + 0.5 \<le> curfew a)) \<and>
         leisureFits a t =
           (wantsLeisure a \<and> leisureSpot a \<noteq> None \<and>
            plus64 (plus64 (plus64 t 0.5) (leisureDuration a)) 0.5 \<le> curfew a)"
proof (intro conjI impI allI)
  assume "phase a = commuting_home_from_work \<and> snd (moveAlongPath a dt) \<or>
          (phase a = at_work \<or> phase a = commuting_to_lunch \<or> phase a = at_lunch \<or>
           phase a = returning_from_lunch) \<and>
          routeRequest a t = Some (home a, True) \<and> routeFrom a (home a) = Some None"
  then show "\<exists>a'. update a t dt r = Some a' \<and>
                    phase a' = (if leisureFits a t then at_home_considering_leisure
                                else at_home_evening) \<and>
                    event (last (eventLog a')) = ''Arrived home'' \<and>
                    time (last (eventLog a')) = t"
    using commute_arrival[of a dt t r] snap_arrival[of a t dt r] by blast
next
  fix a' assume "update a t dt r = Some a' \<and> phase a \<noteq> at_home_considering_leisure \<and>
               phase a' = at_home_considering_leisure"
  then show "leisureFits a t" using decision_outcome(2)[of a t dt r a'] by blast
next
  fix a' assume "update a t dt r = Some a' \<and>
               (phase a = commuting_home_from_work \<or> phase a = at_work \<or>
                phase a = commuting_to_lunch \<or> phase a = at_lunch \<or>
                phase a = returning_from_lunch) \<and>
               (phase a' = at_home_considering_leisure \<or> phase a' = at_home_evening)"
  then show "(phase a' = at_home_considering_leisure) = leisureFits a t"
    using decision_outcome(1)[of a t dt r a'] by blast
next
  assume "plus64 t 0.5 = t + 0.5 \<and>
          plus64 (t + 0.5) (leisureDuration a) = t + 0.5 + leisureDuration a \<and>
          plus64 (t + 0.5 + leisureDuration a) 0.5 = t + 0.5 + leisureDuration a + 0.5"
  then show "leisureFits a t =
              (wantsLeisure a \<and> leisureSpot a \<noteq> None \<and>
               t + 0.5 + leisureDuration a + 0.5 \<le> curfew a)"
    using leisureFits_exact[of t a] by blast
next
  show "leisureFits a t =
           (wantsLeisure a \<and> leisureSpot a \<noteq> None \<and>
            plus64 (plus64 (plus64 t 0.5) (leisureDuration a)) 0.5 \<le> curfew a)"
    by (simp add: leisureFits_def)
qed

theorem leisure_decision_on_arrival_witness:
  "(\<exists>a'. update actorApartCommuting 13.1 1 0 = Some a' \<and>
         phase a' = at_home_considering_leisure \<and>
         event (last (eventLog a')) = ''Arrived home'' \<and> time (last (eventLog a')) = 13.1) \<and>
   (\<exists>a'. update actorApartCommuting 17.5 1 0 = Some a' \<and>
         phase a' = at_home_evening \<and>
         event (last (eventLog a')) = ''Arrived home'' \<and> time (last (eventLog a')) = 17.5) \<and>
   phase actorApartCommuting = commuting_home_from_work \<and>
   snd (moveAlongPath actorApartCommuting 1) \<and>
   leisureDuration actorApartCommuting = 1 \<and> curfew actorApartCommuting = 19 \<and>
   bedTime actorApartCommuting = 20 \<and>
   leisureFits actorApartCommuting 13.1 \<and> \<not> leisureFits actorApartCommuting 17.5"
proof -
  have ph: "phase actorApartCommuting = commuting_home_from_work" by code_simp
  have arr: "snd (moveAlongPath actorApartCommuting 1)" by code_simp
  have fld: "leisureDuration actorApartCommuting = 1" "curfew actorApartCommuting = 19"
    "bedTime actorApartCommuting = 20" by code_simp+
  have fits: "leisureFits actorApartCommuting 13.1" "\<not> leisureFits actorApartCommuting 17.5"
    by code_simp+
  have b: "\<bar>13.1 :: real\<bar> \<le> 2 ^ 1000" "\<bar>17.5 :: real\<bar> \<le> 2 ^ 1000"
    "\<bar>leisureDuration actorApartCommuting\<bar> \<le> 2 ^ 1000"
    by (simp_all add: fld)
  from leisure_decision_on_arrival[where t = "13.1" and a = actorApartCommuting and dt = 1 and r = 0,
      OF b(1) b(3), THEN conjunct1] ph arr fits(1)
  have one: "\<exists>a'. update actorApartCommuting 13.1 1 0 = Some a' \<and>
         phase a' = at_home_considering_leisure \<and>
         event (last (eventLog a')) = ''Arrived home'' \<and> time (last (eventLog a')) = 13.1"
    by simp
  from leisure_decision_on_arrival[where t = "17.5" and a = actorApartCommuting and dt = 1 and r = 0,
      OF b(2) b(3), THEN conjunct1] ph arr fits(2)
  have two: "\<exists>a'. update actorApartCommuting 17.5 1 0 = Some a' \<and>
         phase a' = at_home_evening \<and>
         event (last (eventLog a')) = ''Arrived home'' \<and> time (last (eventLog a')) = 17.5"
    by simp
  from one two ph arr fld fits show ?thesis by simp
qed

text \<open>
  The claim as stated, with the exact sum, fails: the third actor arrives home at
  \<open>15.5 + 2^-49\<close>.  The exact estimate is \<open>19 + 2^-49\<close>, after its curfew 19; but the first
  sum, \<open>16 + 2^-49\<close>, lies halfway between the binary64 values \<open>16\<close> and \<open>16 + 2^-48\<close> and is
  rounded to \<open>16\<close>, the estimate of the code is 19, and the actor proceeds to
  \<open>considering-leisure\<close>.
\<close>

theorem leisure_decision_on_arrival_counterexample:
  "phase actorTieCommuting = commuting_home_from_work \<and>
   snd (moveAlongPath actorTieCommuting 1) \<and>
   wantsLeisure actorTieCommuting \<and> leisureSpot actorTieCommuting = Some (4, 0) \<and>
   leisureDuration actorTieCommuting = 2.5 \<and> bedTime actorTieCommuting = 20 \<and>
   curfew actorTieCommuting = 19 \<and>
   (15.5 + 1 / 2 ^ 49) + 0.5 + leisureDuration actorTieCommuting + 0.5 > curfew actorTieCommuting \<and>
   plus64 (15.5 + 1 / 2 ^ 49) 0.5 = 16 \<and>
   plus64 (plus64 (plus64 (15.5 + 1 / 2 ^ 49) 0.5) 2.5) 0.5 = 19 \<and>
   map_option phase (update actorTieCommuting (15.5 + 1 / 2 ^ 49) 1 0)
     = Some at_home_considering_leisure"
  by code_simp

section \<open>Event logs\<close>

text \<open>
  The entry a courier writes is recognised by its prefix; no event of the actor's own
  starts with it.
\<close>

definition isDelivery :: "logEntry \<Rightarrow> bool" where
  "isDelivery e \<longleftrightarrow> take 12 (event e) = ''Delivery by ''"

text \<open>\<open>stamped t old new\<close>: the log \<open>new\<close> is \<open>old\<close> followed by entries with timestamp \<open>t\<close>.\<close>

definition stamped :: "real \<Rightarrow> logEntry list \<Rightarrow> logEntry list \<Rightarrow> bool" where
  "stamped t old new \<longleftrightarrow> (\<exists>es. new = old @ es \<and> (\<forall>e\<in>set es. time e = t))"

lemma stamped_refl [simp]: "stamped t l l"
  by (simp add: stamped_def)

lemma stamped_append [simp]: "stamped t l (l @ es) = (\<forall>e\<in>set es. time e = t)"
  by (simp add: stamped_def)

lemma stamped_trans: "stamped t l1 l2 \<Longrightarrow> stamped t l2 l3 \<Longrightarrow> stamped t l1 l3"
  by (auto simp: stamped_def)

lemma eventLog_logEvent [simp]:
  "eventLog (logEvent a ev t l) =
     eventLog a @ [\<lparr>event = ev, time = t,
                    location = (case l of None \<Rightarrow> None | Some n \<Rightarrow> if n = [] then None else Some n)\<rparr>]"
  by (simp add: logEvent_def)

lemma headHome_log:
  assumes "headHome a t np r = Some a'"
  shows "eventLog a' = eventLog a \<or>
         eventLog a' = eventLog a @ [\<lparr>event = ''Arrived home'', time = t,
                                        location = getNameAt (city a) (home a)\<rparr>]"
  using headHome_cases[OF assms] by auto

lemma update_stamped:
  assumes "update a t dt r = Some a'"
  shows "stamped t (eventLog a) (eventLog a')"
  using assms unfolding update_def
  by (cases "phase a")
     (auto simp: upd_defs Let_def navigateTo_keeps moveAlongPath_keeps
           split: option.splits if_splits prod.splits dest!: headHome_log)

text \<open>The entries of a log with a given event.\<close>

definition entriesOf :: "string \<Rightarrow> agent \<Rightarrow> logEntry list" where
  "entriesOf ev a = filter (\<lambda>e. event e = ev) (eventLog a)"

lemma entriesOf_upd [simp]:
  "entriesOf ev (a\<lparr>path := v1\<rparr>) = entriesOf ev a"
  "entriesOf ev (a\<lparr>pathIndex := v2\<rparr>) = entriesOf ev a"
  "entriesOf ev (a\<lparr>moveProgress := v3\<rparr>) = entriesOf ev a"
  "entriesOf ev (a\<lparr>pathHistory := v4\<rparr>) = entriesOf ev a"
  "entriesOf ev (a\<lparr>x := v5\<rparr>) = entriesOf ev a"
  "entriesOf ev (a\<lparr>y := v6\<rparr>) = entriesOf ev a"
  "entriesOf ev (a\<lparr>state := v7\<rparr>) = entriesOf ev a"
  "entriesOf ev (a\<lparr>phase := v8\<rparr>) = entriesOf ev a"
  "entriesOf ev (a\<lparr>hadLunch := v10\<rparr>) = entriesOf ev a"
  "entriesOf ev (a\<lparr>orderedDelivery := v11\<rparr>) = entriesOf ev a"
  "entriesOf ev (a\<lparr>leisureDepartureTime := v12\<rparr>) = entriesOf ev a"
  "entriesOf ev (a\<lparr>leisureEndTime := v13\<rparr>) = entriesOf ev a"
  by (simp_all add: entriesOf_def)

lemma entriesOf_logEvent:
  "entriesOf ev (logEvent a ev' t l) =
     (if ev' = ev
      then entriesOf ev a @ [\<lparr>event = ev', time = t,
             location = (case l of None \<Rightarrow> None | Some n \<Rightarrow> if n = [] then None else Some n)\<rparr>]
      else entriesOf ev a)"
  by (simp add: entriesOf_def)

lemma entriesOf_keeps:
  "entriesOf ev (decideLeisure a t r) = entriesOf ev a"
  "navigateTo a tg = Some a' \<Longrightarrow> entriesOf ev a' = entriesOf ev a"
  "moveAlongPath a dt = (a', b) \<Longrightarrow> entriesOf ev a' = entriesOf ev a"
  by (simp_all add: entriesOf_def navigateTo_keeps moveAlongPath_keeps)

lemma headHome_entries:
  assumes "headHome a t np r = Some a'" and "ev \<noteq> ''Arrived home''"
  shows "entriesOf ev a' = entriesOf ev a"
  using headHome_log[OF assms(1)] assms(2) by (auto simp: entriesOf_def)

text \<open>Outside \<open>at_work\<close> no call logs an order or a departure for lunch, or sets the flag.\<close>

lemma update_elsewhere_orders:
  assumes "update a t dt r = Some a'" and "phase a \<noteq> at_work"
  shows "orderedDelivery a' = orderedDelivery a"
    and "entriesOf ''Ordered delivery'' a' = entriesOf ''Ordered delivery'' a"
    and "entriesOf ''Left for lunch'' a' = entriesOf ''Left for lunch'' a"
  using assms unfolding update_def
  by (cases "phase a";
      auto simp: upd_defs Let_def navigateTo_keeps moveAlongPath_keeps headHome_keeps
           entriesOf_logEvent entriesOf_keeps headHome_entries
           split: option.splits if_splits prod.splits)+

text \<open>At work: the order is logged once, by the first call at or after the order time;
  an actor that orders delivery does not leave for lunch.\<close>

lemma upd_at_work_orders:
  assumes "upd_at_work a t r = Some a'"
  shows "(if ordersDelivery a \<and> \<not> orderedDelivery a \<and> geqOpt t (orderTime a)
          then orderedDelivery a' \<and>
               map time (entriesOf ''Ordered delivery'' a') =
                 map time (entriesOf ''Ordered delivery'' a) @ [t]
          else orderedDelivery a' = orderedDelivery a \<and>
               entriesOf ''Ordered delivery'' a' = entriesOf ''Ordered delivery'' a)"
    and "ordersDelivery a \<Longrightarrow> entriesOf ''Left for lunch'' a' = entriesOf ''Left for lunch'' a"
proof -
  define a1 where "a1 = (if ordersDelivery a \<and> \<not> orderedDelivery a \<and> geqOpt t (orderTime a)
                then logEvent (a\<lparr>orderedDelivery := True\<rparr>)
                       ''Ordered delivery'' t (nameAt a (eatery a))
                else a)"
  have a1: "(if ordersDelivery a \<and> \<not> orderedDelivery a \<and> geqOpt t (orderTime a)
          then orderedDelivery a1 \<and>
               map time (entriesOf ''Ordered delivery'' a1) =
                 map time (entriesOf ''Ordered delivery'' a) @ [t]
          else orderedDelivery a1 = orderedDelivery a \<and>
               entriesOf ''Ordered delivery'' a1 = entriesOf ''Ordered delivery'' a)"
    "entriesOf ''Left for lunch'' a1 = entriesOf ''Left for lunch'' a"
    "ordersDelivery a1 = ordersDelivery a"
    by (simp_all add: a1_def entriesOf_logEvent) (simp_all add: logEvent_def)
  have rest: "orderedDelivery a' = orderedDelivery a1 \<and>
              entriesOf ''Ordered delivery'' a' = entriesOf ''Ordered delivery'' a1 \<and>
              (ordersDelivery a1 \<longrightarrow> entriesOf ''Left for lunch'' a' = entriesOf ''Left for lunch'' a1)"
  proof (cases "\<not> hadLunch a1 \<and> takesLunch a1 \<and> geq t (lunchStart a1)")
    case True
    show ?thesis
    proof (cases "ordersDelivery a1")
      case od: True
      with True assms have "a' = a1\<lparr>hadLunch := True\<rparr>"
        by (auto simp: upd_at_work_def a1_def[symmetric] Let_def)
      then show ?thesis by simp
    next
      case nod: False
      with True assms obtain a4 where
        nav: "navigateTo (logEvent (a1\<lparr>hadLunch := True\<rparr>) ''Left for lunch'' t
                 (nameAt (a1\<lparr>hadLunch := True\<rparr>) (Some (workplace (a1\<lparr>hadLunch := True\<rparr>)))))
                 (eatery (logEvent (a1\<lparr>hadLunch := True\<rparr>) ''Left for lunch'' t
                 (nameAt (a1\<lparr>hadLunch := True\<rparr>) (Some (workplace (a1\<lparr>hadLunch := True\<rparr>)))))) = Some a4"
        and a': "a' = (if path a4 \<noteq> None then a4\<lparr>phase := commuting_to_lunch, state := st_traveling\<rparr> else a4)"
        by (auto simp: upd_at_work_def a1_def[symmetric] Let_def split: option.splits if_splits)
      from navigateTo_keeps(7)[OF nav] entriesOf_keeps(2)[OF nav] a' nod show ?thesis
        by (auto simp: entriesOf_logEvent)
    qed
  next
    case False
    show ?thesis
    proof (cases "t \<ge> workEnd a1")
      case True
      with assms False
      have hh: "headHome (logEvent a1 ''Left work'' t (nameAt a1 (Some (workplace a1))))
                  t commuting_home_from_work r = Some a'"
        by (auto simp: upd_at_work_def a1_def[symmetric] Let_def)
      from headHome_keeps(3)[OF hh] headHome_entries[OF hh] show ?thesis
        by (simp add: entriesOf_logEvent)
    next
      case nle: False
      with assms False have "a' = a1"
        by (auto simp: upd_at_work_def a1_def[symmetric] Let_def)
      then show ?thesis by simp
    qed
  qed
  from a1 rest show "(if ordersDelivery a \<and> \<not> orderedDelivery a \<and> geqOpt t (orderTime a)
          then orderedDelivery a' \<and>
               map time (entriesOf ''Ordered delivery'' a') =
                 map time (entriesOf ''Ordered delivery'' a) @ [t]
          else orderedDelivery a' = orderedDelivery a \<and>
               entriesOf ''Ordered delivery'' a' = entriesOf ''Ordered delivery'' a)"
    by (simp split: if_splits)
  from a1 rest show "ordersDelivery a \<Longrightarrow> entriesOf ''Left for lunch'' a' = entriesOf ''Left for lunch'' a"
    by simp
qed


subsection \<open>What a courier writes\<close>

text \<open>\<open>courierWrote t a a'\<close>: \<open>a'\<close> is \<open>a\<close> with delivery entries of timestamp \<open>t\<close> added to
  its log, and nothing else changed.\<close>

definition courierWrote :: "real \<Rightarrow> agent \<Rightarrow> agent \<Rightarrow> bool" where
  "courierWrote t a a' \<longleftrightarrow>
     (\<exists>es. a' = a\<lparr>eventLog := eventLog a @ es\<rparr> \<and> (\<forall>e\<in>set es. time e = t \<and> isDelivery e))"

lemma courierWrote_refl [simp]: "courierWrote t a a"
  unfolding courierWrote_def by (intro exI[of _ "[]"]) simp

lemma courierWrote_trans: "courierWrote t a b \<Longrightarrow> courierWrote t b c \<Longrightarrow> courierWrote t a c"
  unfolding courierWrote_def
proof (elim exE conjE)
  fix es fs
  assume "b = a\<lparr>eventLog := eventLog a @ es\<rparr>" "c = b\<lparr>eventLog := eventLog b @ fs\<rparr>"
    "\<forall>e\<in>set es. time e = t \<and> isDelivery e" "\<forall>e\<in>set fs. time e = t \<and> isDelivery e"
  then show "\<exists>es. c = a\<lparr>eventLog := eventLog a @ es\<rparr> \<and> (\<forall>e\<in>set es. time e = t \<and> isDelivery e)"
    by (intro exI[of _ "es @ fs"]) auto
qed

lemma isDelivery_events:
  "isDelivery e \<Longrightarrow> event e \<noteq> ''Ordered delivery'' \<and> event e \<noteq> ''Left for lunch''"
  by (auto simp: isDelivery_def)

lemma courierWrote_keeps:
  assumes "courierWrote t a a'"
  shows "schedule a' = schedule a" "orderedDelivery a' = orderedDelivery a" "phase a' = phase a"
    "stamped t (eventLog a) (eventLog a')"
    "entriesOf ''Ordered delivery'' a' = entriesOf ''Ordered delivery'' a"
    "entriesOf ''Left for lunch'' a' = entriesOf ''Left for lunch'' a"
proof -
  from assms obtain es where a': "a' = a\<lparr>eventLog := eventLog a @ es\<rparr>"
    and es: "\<forall>e\<in>set es. time e = t \<and> isDelivery e"
    unfolding courierWrote_def by blast
  from es have no: "filter (\<lambda>e. event e = ''Ordered delivery'') es = []"
    "filter (\<lambda>e. event e = ''Left for lunch'') es = []"
    using isDelivery_events by (auto simp: filter_empty_conv)
  show "schedule a' = schedule a" "orderedDelivery a' = orderedDelivery a" "phase a' = phase a"
    by (simp_all add: a')
  show "stamped t (eventLog a) (eventLog a')" using es by (simp add: a')
  show "entriesOf ''Ordered delivery'' a' = entriesOf ''Ordered delivery'' a"
    "entriesOf ''Left for lunch'' a' = entriesOf ''Left for lunch'' a"
    using no by (simp_all add: a' entriesOf_def)
qed

lemma drv_update_wrote:
  assumes "drv_update d a t dt = Some (d', a')"
  shows "courierWrote t a a'"
proof -
  from assms have "a' = a \<or> (\<exists>n. a' = logEvent a (''Delivery by '' @ n) t (Some n))"
    unfolding drv_update_def
    by (cases "drv_phase d") (auto simp: Let_def split: if_splits prod.splits option.splits)
  then show ?thesis
  proof
    assume "a' = a"
    then show ?thesis by simp
  next
    assume "\<exists>n. a' = logEvent a (''Delivery by '' @ n) t (Some n)"
    then obtain n where "a' = logEvent a (''Delivery by '' @ n) t (Some n)" by blast
    then show ?thesis
      unfolding courierWrote_def logEvent_def
      by (intro exI[of _ "[\<lparr>event = ''Delivery by '' @ n, time = t,
                            location = (if n = [] then None else Some n)\<rparr>]"])
         (simp add: isDelivery_def)
  qed
qed

lemma drv_navigateTo_keeps:
  assumes "drv_navigateTo d tg = Some d'"
  shows "drv_agent d' = drv_agent d" "departureTime d' = departureTime d" "drv_phase d' = drv_phase d"
  using assms by (auto simp: drv_navigateTo_def split: option.splits)

lemma drv_moveAlongPath_keeps:
  assumes "drv_moveAlongPath d dt = (d', b)"
  shows "drv_agent d' = drv_agent d" "departureTime d' = departureTime d" "drv_phase d' = drv_phase d"
  using assms
  by (auto simp: drv_moveAlongPath_def Let_def split: option.splits if_splits prod.splits)

lemma drv_update_keeps:
  assumes "drv_update d a t dt = Some (d', a')"
  shows "drv_agent d' = drv_agent d" "departureTime d' = departureTime d"
  using assms unfolding drv_update_def
  by (cases "drv_phase d";
      auto simp: Let_def drv_navigateTo_keeps drv_moveAlongPath_keeps
           split: if_splits prod.splits option.splits)+

subsection \<open>Passes of the loop\<close>

lemma updateAgents_nth:
  "updateAgents pos as t dt rnd = Some as' \<Longrightarrow>
   length as' = length as \<and> (\<forall>i<length as. update (as ! i) t dt (rnd (pos + i)) = Some (as' ! i))"
proof (induction as arbitrary: pos as')
  case Nil
  then show ?case by simp
next
  case (Cons a as)
  from Cons.prems obtain a1 rest where a1: "update a t dt (rnd pos) = Some a1"
    and rest: "updateAgents (Suc pos) as t dt rnd = Some rest" and as': "as' = a1 # rest"
    by (auto split: option.splits)
  from Cons.IH[OF rest] a1 as' show ?case
    by (auto simp: nth_Cons split: nat.splits)
qed

lemma updateDrivers_effect:
  "updateDrivers ds as t dt = Some (ds', as') \<Longrightarrow>
   length as' = length as \<and> (\<forall>i<length as. courierWrote t (as ! i) (as' ! i)) \<and>
   map drv_agent ds' = map drv_agent ds \<and> map departureTime ds' = map departureTime ds"
proof (induction ds arbitrary: as ds' as')
  case Nil
  then show ?case by simp
next
  case (Cons d ds)
  from Cons.prems obtain d1 a1 ds1 where lt: "drv_agent d < length as"
    and du: "drv_update d (as ! drv_agent d) t dt = Some (d1, a1)"
    and rest: "updateDrivers ds (as[drv_agent d := a1]) t dt = Some (ds1, as')"
    and ds': "ds' = d1 # ds1"
    by (auto split: option.splits if_splits)
  note ih = Cons.IH[OF rest]
  have "courierWrote t (as ! i) (as' ! i)" if "i < length as" for i
  proof -
    have "courierWrote t (as ! i) (as[drv_agent d := a1] ! i)"
      using drv_update_wrote[OF du] that by (cases "i = drv_agent d") simp_all
    moreover have "courierWrote t (as[drv_agent d := a1] ! i) (as' ! i)"
      using ih that by simp
    ultimately show ?thesis by (rule courierWrote_trans)
  qed
  with ih ds' drv_update_keeps[OF du] show ?case by simp
qed

text \<open>
  An invariant of every actor, indexed by its position and by the hour of the last
  pass: kept by the actor's own calls, at an hour related to the last one by \<open>ok\<close>, and by
  what couriers write, it holds after a run whose consecutive hours are related by \<open>ok\<close>.
\<close>

lemma loopStep_invariant:
  assumes upd: "\<And>i a t t' dt r a'. I i t a \<Longrightarrow> ok t t' \<Longrightarrow> update a t' dt r = Some a' \<Longrightarrow> I i t' a'"
    and wr: "\<And>i a t a'. I i t a \<Longrightarrow> courierWrote t a a' \<Longrightarrow> I i t a'"
    and step: "loopStep sim t' dt rnd = Some sim'"
    and le: "ok t t'"
    and init: "\<forall>i<length (agents sim). I i t (agents sim ! i)"
  shows "length (agents sim') = length (agents sim) \<and>
         (\<forall>i<length (agents sim). I i t' (agents sim' ! i)) \<and>
         map drv_agent (drivers sim') = map drv_agent (drivers sim) \<and>
         map departureTime (drivers sim') = map departureTime (drivers sim)"
proof -
  from step obtain as1 ds' as2 where ua: "updateAgents 0 (agents sim) t' dt rnd = Some as1"
    and ud: "updateDrivers (drivers sim) as1 t' dt = Some (ds', as2)"
    and sim': "sim' = \<lparr>agents = as2, drivers = ds'\<rparr>"
    by (auto simp: loopStep_def split: option.splits)
  note a = updateAgents_nth[OF ua] and d = updateDrivers_effect[OF ud]
  have "I i t' (as2 ! i)" if "i < length (agents sim)" for i
  proof -
    from a that have "update (agents sim ! i) t' dt (rnd (0 + i)) = Some (as1 ! i)" by blast
    with init that le have "I i t' (as1 ! i)" using upd by blast
    moreover from d a that have "courierWrote t' (as1 ! i) (as2 ! i)" by simp
    ultimately show ?thesis using wr by blast
  qed
  with a d sim' show ?thesis by simp
qed

lemma runSim_invariant:
  assumes upd: "\<And>i a t t' dt r a'. I i t a \<Longrightarrow> ok t t' \<Longrightarrow> update a t' dt r = Some a' \<Longrightarrow> I i t' a'"
    and wr: "\<And>i a t a'. I i t a \<Longrightarrow> courierWrote t a a' \<Longrightarrow> I i t a'"
  shows "runSim sim ticks = Some sim' \<Longrightarrow> successively ok (t0 # map fst ticks) \<Longrightarrow>
         \<forall>i<length (agents sim). I i t0 (agents sim ! i) \<Longrightarrow>
         length (agents sim') = length (agents sim) \<and>
         (\<forall>i<length (agents sim). I i (last (t0 # map fst ticks)) (agents sim' ! i)) \<and>
         map drv_agent (drivers sim') = map drv_agent (drivers sim) \<and>
         map departureTime (drivers sim') = map departureTime (drivers sim)"
proof (induction ticks arbitrary: sim t0)
  case Nil
  then show ?case by simp
next
  case (Cons tk ticks)
  obtain t dt rnd where tk: "tk = (t, dt, rnd)" by (cases tk)
  from Cons.prems(1) tk obtain sim1 where s1: "loopStep sim t dt rnd = Some sim1"
    and r1: "runSim sim1 ticks = Some sim'"
    by (auto split: option.splits)
  from Cons.prems(2) tk have le: "ok t0 t" and srt: "successively ok (t # map fst ticks)" by simp_all
  note st = loopStep_invariant[of I ok, OF upd wr s1 le Cons.prems(3)]
  from st have "\<forall>i<length (agents sim1). I i t (agents sim1 ! i)" by simp
  from Cons.IH[OF r1 srt this] st tk show ?case by simp
qed

lemma successively_any: "successively (\<lambda>_ _. True) xs"
  by (induction xs rule: induct_list012) simp_all

text \<open>The same for an invariant that does not depend on the hours.\<close>

lemma runSim_preserves:
  assumes upd: "\<And>i a t dt r a'. P i a \<Longrightarrow> update a t dt r = Some a' \<Longrightarrow> P i a'"
    and wr: "\<And>i a t a'. P i a \<Longrightarrow> courierWrote t a a' \<Longrightarrow> P i a'"
    and run: "runSim sim ticks = Some sim'"
    and init: "\<forall>i<length (agents sim). P i (agents sim ! i)"
  shows "length (agents sim') = length (agents sim) \<and>
         (\<forall>i<length (agents sim). P i (agents sim' ! i)) \<and>
         map drv_agent (drivers sim') = map drv_agent (drivers sim) \<and>
         map departureTime (drivers sim') = map departureTime (drivers sim)"
  using runSim_invariant[of "\<lambda>i t. P i" "\<lambda>_ _. True" sim ticks sim' 0, OF _ _ run successively_any]
    upd wr init by blast


subsection \<open>Orders in the log\<close>

lemma update_orders:
  assumes "update a t dt r = Some a'"
  shows "(if phase a = at_work \<and> ordersDelivery a \<and> \<not> orderedDelivery a \<and> geqOpt t (orderTime a)
          then orderedDelivery a' \<and>
               map time (entriesOf ''Ordered delivery'' a') =
                 map time (entriesOf ''Ordered delivery'' a) @ [t]
          else orderedDelivery a' = orderedDelivery a \<and>
               entriesOf ''Ordered delivery'' a' = entriesOf ''Ordered delivery'' a)"
proof (cases "phase a = at_work")
  case True
  with assms have "upd_at_work a t r = Some a'" by (simp add: update_def)
  from upd_at_work_orders(1)[OF this] True show ?thesis by simp
next
  case False
  with update_elsewhere_orders(1,2)[OF assms] show ?thesis by simp
qed

lemma update_lunches:
  assumes "update a t dt r = Some a'" and "ordersDelivery a"
  shows "entriesOf ''Left for lunch'' a' = entriesOf ''Left for lunch'' a"
proof (cases "phase a = at_work")
  case True
  with assms have "upd_at_work a t r = Some a'" by (simp add: update_def)
  from upd_at_work_orders(2)[OF this assms(2)] show ?thesis .
next
  case False
  with update_elsewhere_orders(3)[OF assms(1)] show ?thesis by simp
qed

lemma stamped_sorted:
  assumes "sorted (map time old)" and "\<forall>e\<in>set old. time e \<le> t" and "t \<le> t'"
    and "stamped t' old new"
  shows "sorted (map time new) \<and> (\<forall>e\<in>set new. time e \<le> t')"
proof -
  from assms(4) obtain es where new: "new = old @ es" and es: "\<forall>e\<in>set es. time e = t'"
    by (auto simp: stamped_def)
  from es have "map time es = replicate (length es) t'"
    by (induction es) simp_all
  then have "sorted (map time es)" by (simp add: sorted_replicate)
  with assms(1,2,3) es show ?thesis
    by (fastforce simp: new sorted_append)
qed

text \<open>The constructor: an order needs lunch, and the order time is before lunch.\<close>

lemma mkAgent_fresh:
  "eventLog (mkAgent n hm wp ls ea c rnd) = []"
  "orderedDelivery (mkAgent n hm wp ls ea c rnd) = False"
  "phase (mkAgent n hm wp ls ea c rnd) = sleeping"
  "curfew (mkAgent n hm wp ls ea c rnd) = bedTime (mkAgent n hm wp ls ea c rnd) - 1"
  by (simp_all add: mkAgent_def Let_def)

lemma mkAgent_orders:
  "ordersDelivery (mkAgent n hm wp ls ea c rnd) =
     (takesLunch (mkAgent n hm wp ls ea c rnd) \<and>
      (case ea of None \<Rightarrow> False | Some e \<Rightarrow> chebyshev wp e > 20))"
  by (simp add: mkAgent_def Let_def)

lemma mkAgent_order_time:
  assumes "ordersDelivery (mkAgent n hm wp ls ea c rnd)" and "0 \<le> rnd 7"
  shows "\<exists>ot lst. orderTime (mkAgent n hm wp ls ea c rnd) = Some ot \<and>
                  lunchStart (mkAgent n hm wp ls ea c rnd) = Num lst \<and> ot < lst"
proof -
  define lst where "lst = real_of_int (js_round ((6 + rnd 1 * 3 + (7 + rnd 3 * 3) / 2) * 2)) / 2"
  from assms(1) have tl: "takesLunch (mkAgent n hm wp ls ea c rnd)"
    by (simp add: mkAgent_orders)
  have "orderTime (mkAgent n hm wp ls ea c rnd) = Some (lst - (25 + rnd 7 * 10) / 60)"
    using assms(1) unfolding mkAgent_def Let_def lst_def by (simp split: if_splits)
  moreover have "lunchStart (mkAgent n hm wp ls ea c rnd) = Num lst"
    using tl unfolding mkAgent_def Let_def lst_def by (simp split: if_splits)
  moreover have "lst - (25 + rnd 7 * 10) / 60 < lst" using assms(2) by simp
  ultimately show ?thesis by blast
qed

text \<open>The couriers that \<open>_createAgents\<close> makes refer to actors that order delivery.\<close>

lemma mkDriver_agent: "mkDriver ea bus ref a c shps r = Some d \<Longrightarrow> drv_agent d = ref"
  by (auto simp: mkDriver_def Let_def split: option.splits if_splits)

lemma createDriversFrom_refs:
  "createDriversFrom c pos k rnd as = Some ds \<Longrightarrow> d \<in> set ds \<Longrightarrow>
   pos \<le> drv_agent d \<and> drv_agent d < pos + length as \<and> ordersDelivery (as ! (drv_agent d - pos))"
proof (induction as arbitrary: pos k ds)
  case Nil
  then show ?case by simp
next
  case (Cons a as)
  show ?case
  proof (cases "ordersDelivery a")
    case False
    with Cons.prems have "createDriversFrom c (Suc pos) k rnd as = Some ds" by simp
    from Cons.IH[OF this Cons.prems(2)] show ?thesis
      by (simp add: nth_Cons')
  next
    case True
    with Cons.prems(1) obtain ea d0 rest where ea: "eatery a = Some ea"
      and d0: "mkDriver ea (workplace a) pos a c (SIM_DURATION_HOURS / SIM_DURATION_REAL) (rnd k) = Some d0"
      and rest: "createDriversFrom c (Suc pos) (Suc k) rnd as = Some rest" and ds: "ds = d0 # rest"
      by (auto split: option.splits)
    show ?thesis
    proof (cases "d = d0")
      case True
      with mkDriver_agent[OF d0] \<open>ordersDelivery a\<close> show ?thesis by simp
    next
      case False
      with Cons.prems(2) ds have "d \<in> set rest" by simp
      from Cons.IH[OF rest this] show ?thesis
        by (simp add: nth_Cons')
    qed
  qed
qed


section \<open>Claims about runs\<close>

lemma runSim_logs_sorted:
  assumes "runSim sim ticks = Some sim'" and "sorted (map fst ticks)"
    and "\<forall>a\<in>set (agents sim). eventLog a = []"
  shows "\<forall>a\<in>set (agents sim'). sorted (map time (eventLog a))"
proof (cases ticks)
  case Nil
  with assms(1,3) show ?thesis by simp
next
  case (Cons tk rest)
  define I where "I = (\<lambda>(i::nat) t (a::agent). sorted (map time (eventLog a)) \<and> (\<forall>e\<in>set (eventLog a). time e \<le> t))"
  have upd: "\<And>i a t t' dt r a'. I i t a \<Longrightarrow> t \<le> t' \<Longrightarrow> update a t' dt r = Some a' \<Longrightarrow> I i t' a'"
    unfolding I_def using stamped_sorted update_stamped by blast
  have wr: "\<And>i a t a'. I i t a \<Longrightarrow> courierWrote t a a' \<Longrightarrow> I i t a'"
    unfolding I_def using stamped_sorted[OF _ _ order_refl] courierWrote_keeps(4) by blast
  from assms(2) Cons have "sorted (fst tk # map fst ticks)" by simp
  then have srt: "successively (\<le>) (fst tk # map fst ticks)"
    by (rule successively_if_sorted_wrt)
  from assms(3) have init: "\<forall>i<length (agents sim). I i (fst tk) (agents sim ! i)"
    by (simp add: I_def)
  have "length (agents sim') = length (agents sim) \<and>
         (\<forall>i<length (agents sim). I i (last (fst tk # map fst ticks)) (agents sim' ! i)) \<and>
         map drv_agent (drivers sim') = map drv_agent (drivers sim) \<and>
         map departureTime (drivers sim') = map departureTime (drivers sim)"
    by (rule runSim_invariant[of I "(\<le>)" sim ticks sim' "fst tk"]) (fact upd wr assms(1) srt init)+
  then have len: "length (agents sim') = length (agents sim)"
    and all: "\<forall>i<length (agents sim). I i (last (fst tk # map fst ticks)) (agents sim' ! i)"
    by blast+
  show ?thesis
  proof
    fix a assume "a \<in> set (agents sim')"
    then obtain i where "i < length (agents sim')" "a = agents sim' ! i"
      by (auto simp: in_set_conv_nth)
    with len all show "sorted (map time (eventLog a))" by (simp add: I_def)
  qed
qed

text \<open>
  C9.  An actor built by the constructor that does not take lunch does not order
  delivery, however far its eatery is; \<open>_createAgents\<close> makes no courier for it, no
  courier of the run refers to it, and its log never holds an \<open>Ordered delivery\<close> event.
\<close>

theorem no_lunch_no_delivery:
  assumes "i < length as" and "as ! i = mkAgent n hm wp ls ea c rnd0"
    and "\<not> takesLunch (as ! i)"
    and "createDrivers c' rnd as = Some ds"
    and "runSim \<lparr>agents = as, drivers = ds\<rparr> ticks = Some sim'"
  shows "\<not> ordersDelivery (as ! i) \<and> (\<forall>d\<in>set ds. drv_agent d \<noteq> i) \<and>
         (\<forall>d\<in>set (drivers sim'). drv_agent d \<noteq> i) \<and>
         i < length (agents sim') \<and> \<not> ordersDelivery (agents sim' ! i) \<and>
         entriesOf ''Ordered delivery'' (agents sim' ! i) = []"
proof -
  from assms(2,3) have nod: "\<not> ordersDelivery (as ! i)"
    by (simp add: mkAgent_orders)
  have refs: "\<forall>d\<in>set ds. drv_agent d \<noteq> i"
  proof
    fix d assume "d \<in> set ds"
    from createDriversFrom_refs[OF assms(4)[unfolded createDrivers_def] this] nod
    show "drv_agent d \<noteq> i" by auto
  qed
  define P where "P = (\<lambda>k (a::agent). k = i \<longrightarrow> \<not> ordersDelivery a \<and> entriesOf ''Ordered delivery'' a = [])"
  have upd: "\<And>k a t dt r a'. P k a \<Longrightarrow> update a t dt r = Some a' \<Longrightarrow> P k a'"
  proof -
    fix k a t dt r a' assume p: "P k a" and u: "update a t dt r = Some a'"
    from schedule_fields(10)[OF update_schedule[OF u]] update_orders[OF u] p
    show "P k a'" by (auto simp: P_def split: if_splits)
  qed
  have wr: "\<And>k a t a'. P k a \<Longrightarrow> courierWrote t a a' \<Longrightarrow> P k a'"
  proof -
    fix k a t a' assume p: "P k a" and w: "courierWrote t a a'"
    from schedule_fields(10)[OF courierWrote_keeps(1)[OF w]] courierWrote_keeps(5)[OF w] p
    show "P k a'" by (simp add: P_def)
  qed
  have init: "\<forall>k<length (agents \<lparr>agents = as, drivers = ds\<rparr>). P k (agents \<lparr>agents = as, drivers = ds\<rparr> ! k)"
    using nod assms(2) by (simp add: P_def entriesOf_def mkAgent_fresh)
  have "length (agents sim') = length (agents \<lparr>agents = as, drivers = ds\<rparr>) \<and>
         (\<forall>k<length (agents \<lparr>agents = as, drivers = ds\<rparr>). P k (agents sim' ! k)) \<and>
         map drv_agent (drivers sim') = map drv_agent (drivers \<lparr>agents = as, drivers = ds\<rparr>) \<and>
         map departureTime (drivers sim') = map departureTime (drivers \<lparr>agents = as, drivers = ds\<rparr>)"
    by (rule runSim_preserves[of P _ ticks]) (fact upd wr assms(5) init)+
  with assms(1)
  have "i < length (agents sim')" "P i (agents sim' ! i)"
    "map drv_agent (drivers sim') = map drv_agent ds"
    by simp_all
  moreover from this(3) refs have "\<forall>d\<in>set (drivers sim'). drv_agent d \<noteq> i"
    by (metis (no_types, lifting) image_iff list.set_map)
  ultimately show ?thesis using nod refs by (simp add: P_def)
qed

text \<open>
  The pass that logs the order of actor \<open>i\<close>: the first pass of the run that finds the
  actor at work at an hour that is at least its order time; \<open>orderPass\<close> is its hour.  The
  actor is as the pass finds it, that is, as the pass before has left it.
\<close>

fun orderPass :: "nat \<Rightarrow> simulation \<Rightarrow> (real \<times> real \<times> (nat \<Rightarrow> real)) list \<Rightarrow> real option" where
  "orderPass i sim [] = None"
| "orderPass i sim ((t, dt, rnd) # ticks) =
     (if phase (agents sim ! i) = at_work \<and> geqOpt t (orderTime (agents sim ! i)) then Some t
      else (case loopStep sim t dt rnd of None \<Rightarrow> None | Some sim1 \<Rightarrow> orderPass i sim1 ticks))"

lemma loopStep_order:
  assumes "loopStep sim t dt rnd = Some sim1" and "i < length (agents sim)"
  shows "i < length (agents sim1)"
    and "schedule (agents sim1 ! i) = schedule (agents sim ! i)"
    and "(if phase (agents sim ! i) = at_work \<and> ordersDelivery (agents sim ! i) \<and>
             \<not> orderedDelivery (agents sim ! i) \<and> geqOpt t (orderTime (agents sim ! i))
          then orderedDelivery (agents sim1 ! i) \<and>
               map time (entriesOf ''Ordered delivery'' (agents sim1 ! i)) =
                 map time (entriesOf ''Ordered delivery'' (agents sim ! i)) @ [t]
          else orderedDelivery (agents sim1 ! i) = orderedDelivery (agents sim ! i) \<and>
               entriesOf ''Ordered delivery'' (agents sim1 ! i) =
                 entriesOf ''Ordered delivery'' (agents sim ! i))"
proof -
  from assms(1) obtain as1 ds' as2 where ua: "updateAgents 0 (agents sim) t dt rnd = Some as1"
    and ud: "updateDrivers (drivers sim) as1 t dt = Some (ds', as2)"
    and sim1: "sim1 = \<lparr>agents = as2, drivers = ds'\<rparr>"
    by (auto simp: loopStep_def split: option.splits)
  note a = updateAgents_nth[OF ua] and d = updateDrivers_effect[OF ud]
  from a assms(2) have u: "update (agents sim ! i) t dt (rnd (0 + i)) = Some (as1 ! i)" by blast
  from d a assms(2) have w: "courierWrote t (as1 ! i) (as2 ! i)" by simp
  note k = courierWrote_keeps[OF w]
  show "i < length (agents sim1)" using a d assms(2) sim1 by simp
  show "schedule (agents sim1 ! i) = schedule (agents sim ! i)"
    using update_schedule[OF u] k(1) sim1 by simp
  show "(if phase (agents sim ! i) = at_work \<and> ordersDelivery (agents sim ! i) \<and>
             \<not> orderedDelivery (agents sim ! i) \<and> geqOpt t (orderTime (agents sim ! i))
          then orderedDelivery (agents sim1 ! i) \<and>
               map time (entriesOf ''Ordered delivery'' (agents sim1 ! i)) =
                 map time (entriesOf ''Ordered delivery'' (agents sim ! i)) @ [t]
          else orderedDelivery (agents sim1 ! i) = orderedDelivery (agents sim ! i) \<and>
               entriesOf ''Ordered delivery'' (agents sim1 ! i) =
                 entriesOf ''Ordered delivery'' (agents sim ! i))"
    using update_orders[OF u] k(2,5) sim1 by (simp split: if_splits)
qed

lemma runSim_order:
  "runSim sim ticks = Some sim' \<Longrightarrow> i < length (agents sim) \<Longrightarrow> ordersDelivery (agents sim ! i) \<Longrightarrow>
   i < length (agents sim') \<and>
   (if orderedDelivery (agents sim ! i)
    then orderedDelivery (agents sim' ! i) \<and>
         entriesOf ''Ordered delivery'' (agents sim' ! i) = entriesOf ''Ordered delivery'' (agents sim ! i)
    else (case orderPass i sim ticks of
            None \<Rightarrow> \<not> orderedDelivery (agents sim' ! i) \<and>
                    entriesOf ''Ordered delivery'' (agents sim' ! i) =
                      entriesOf ''Ordered delivery'' (agents sim ! i)
          | Some t \<Rightarrow> orderedDelivery (agents sim' ! i) \<and>
                    map time (entriesOf ''Ordered delivery'' (agents sim' ! i)) =
                      map time (entriesOf ''Ordered delivery'' (agents sim ! i)) @ [t]))"
proof (induction ticks arbitrary: sim)
  case Nil
  then show ?case by simp
next
  case (Cons tk ticks)
  obtain t dt rnd where tk: "tk = (t, dt, rnd)" by (cases tk)
  from Cons.prems(1) tk obtain sim1 where s1: "loopStep sim t dt rnd = Some sim1"
    and r1: "runSim sim1 ticks = Some sim'"
    by (auto split: option.splits)
  note st = loopStep_order[OF s1 Cons.prems(2)]
  note f = schedule_fields(10,11)[OF st(2)]
  from f(1) Cons.prems(3) have od1: "ordersDelivery (agents sim1 ! i)" by simp
  note ih = Cons.IH[OF r1 st(1) od1]
  show ?case
  proof (cases "orderedDelivery (agents sim ! i)")
    case True
    with st(3) have "orderedDelivery (agents sim1 ! i)"
      "entriesOf ''Ordered delivery'' (agents sim1 ! i) = entriesOf ''Ordered delivery'' (agents sim ! i)"
      by simp_all
    with ih True show ?thesis by simp
  next
    case nord: False
    show ?thesis
    proof (cases "phase (agents sim ! i) = at_work \<and> geqOpt t (orderTime (agents sim ! i))")
      case True
      with st(3) nord Cons.prems(3) have "orderedDelivery (agents sim1 ! i)"
        "map time (entriesOf ''Ordered delivery'' (agents sim1 ! i)) =
           map time (entriesOf ''Ordered delivery'' (agents sim ! i)) @ [t]"
        by simp_all
      with ih nord True tk show ?thesis by simp
    next
      case False
      with st(3) have "orderedDelivery (agents sim1 ! i) = orderedDelivery (agents sim ! i)"
        "entriesOf ''Ordered delivery'' (agents sim1 ! i) = entriesOf ''Ordered delivery'' (agents sim ! i)"
        by (simp_all split: if_splits)
      with ih nord False tk s1 show ?thesis by (auto split: option.splits)
    qed
  qed
qed

text \<open>
  What \<open>orderPass\<close> says in terms of the run: its hour is the hour of a pass \<open>k\<close> of the run
  that finds the actor, as the first \<open>k\<close> passes have left it, at work at or after its
  order time, and no earlier pass does; it is \<open>None\<close> when no pass of the run does.
\<close>

lemma orderPass_pass:
  "orderPass i sim ticks = Some t \<Longrightarrow>
   \<exists>k simk dt rnd. k < length ticks \<and> ticks ! k = (t, dt, rnd) \<and>
      runSim sim (take k ticks) = Some simk \<and>
      phase (agents simk ! i) = at_work \<and> geqOpt t (orderTime (agents simk ! i)) \<and>
      orderPass i sim (take k ticks) = None"
proof (induction ticks arbitrary: sim)
  case Nil
  then show ?case by simp
next
  case (Cons tk ticks)
  obtain t' dt rnd where tk: "tk = (t', dt, rnd)" by (cases tk)
  show ?case
  proof (cases "phase (agents sim ! i) = at_work \<and> geqOpt t' (orderTime (agents sim ! i))")
    case True
    with Cons.prems tk have "t = t'" by simp
    with True tk show ?thesis
      by (intro exI[of _ 0] exI[of _ sim] exI[of _ dt] exI[of _ rnd]) simp
  next
    case False
    with Cons.prems tk obtain sim1 where s1: "loopStep sim t' dt rnd = Some sim1"
      and op: "orderPass i sim1 ticks = Some t"
      by (auto split: option.splits)
    from Cons.IH[OF op] obtain k simk dt' rnd' where k: "k < length ticks" "ticks ! k = (t, dt', rnd')"
      "runSim sim1 (take k ticks) = Some simk"
      "phase (agents simk ! i) = at_work \<and> geqOpt t (orderTime (agents simk ! i))"
      "orderPass i sim1 (take k ticks) = None"
      by blast
    with False tk s1 show ?thesis
      by (intro exI[of _ "Suc k"] exI[of _ simk] exI[of _ dt'] exI[of _ rnd']) simp
  qed
qed

lemma orderPass_none:
  "orderPass i sim ticks = None \<Longrightarrow> runSim sim ticks = Some sim' \<Longrightarrow>
   k < length ticks \<Longrightarrow> runSim sim (take k ticks) = Some simk \<Longrightarrow>
   \<not> (phase (agents simk ! i) = at_work \<and> geqOpt (fst (ticks ! k)) (orderTime (agents simk ! i)))"
proof (induction ticks arbitrary: sim k)
  case Nil
  then show ?case by simp
next
  case (Cons tk ticks)
  obtain t' dt rnd where tk: "tk = (t', dt, rnd)" by (cases tk)
  from Cons.prems(1) tk have nf: "\<not> (phase (agents sim ! i) = at_work \<and> geqOpt t' (orderTime (agents sim ! i)))"
    by (auto split: if_splits)
  from Cons.prems(2) tk obtain sim1 where s1: "loopStep sim t' dt rnd = Some sim1"
    and r1: "runSim sim1 ticks = Some sim'"
    by (auto split: option.splits)
  from Cons.prems(1) tk nf s1 have op: "orderPass i sim1 ticks = None" by simp
  show ?case
  proof (cases k)
    case 0
    with Cons.prems(4) have "simk = sim" by simp
    with nf tk 0 show ?thesis by simp
  next
    case (Suc j)
    with Cons.prems(3,4) tk s1 have "j < length ticks" "runSim sim1 (take j ticks) = Some simk"
      by simp_all
    from Cons.IH[OF op r1 this] Suc show ?thesis by simp
  qed
qed

text \<open>
  C4, as amended.  An actor built by the constructor that takes lunch and whose eatery is
  farther than 20 tiles from its workplace (Chebyshev distance) orders delivery, with an
  order time strictly before its lunch start.  In every run its log holds exactly one
  \<open>Ordered delivery\<close> event if some pass finds the actor at work at an hour that is at
  least the order time, and then the timestamp of the event is the hour of the first such
  pass (\<open>orderPass\<close>), which is at least the order time; otherwise it holds none.  The flag
  \<open>_orderedDelivery\<close> is set exactly when the event is logged, and the log holds no
  \<open>Left for lunch\<close> event.
\<close>

theorem far_eatery_orders_delivery:
  assumes "i < length as" and "as ! i = mkAgent n hm wp ls (Some ea) c rnd0"
    and "takesLunch (as ! i)" and "chebyshev wp ea > 20" and "0 \<le> rnd0 7"
    and "runSim \<lparr>agents = as, drivers = ds\<rparr> ticks = Some sim'"
  shows "(\<exists>ot lst. ordersDelivery (as ! i) \<and> orderTime (as ! i) = Some ot \<and>
           lunchStart (as ! i) = Num lst \<and> ot < lst \<and> i < length (agents sim') \<and>
           length (entriesOf ''Ordered delivery'' (agents sim' ! i)) =
             (if orderedDelivery (agents sim' ! i) then 1 else 0) \<and>
           (\<forall>e\<in>set (entriesOf ''Ordered delivery'' (agents sim' ! i)). ot \<le> time e) \<and>
           entriesOf ''Left for lunch'' (agents sim' ! i) = []) \<and>
         map time (entriesOf ''Ordered delivery'' (agents sim' ! i)) =
           (case orderPass i \<lparr>agents = as, drivers = ds\<rparr> ticks of None \<Rightarrow> [] | Some t \<Rightarrow> [t]) \<and>
         orderedDelivery (agents sim' ! i) =
           (orderPass i \<lparr>agents = as, drivers = ds\<rparr> ticks \<noteq> None) \<and>
         (\<forall>t. orderPass i \<lparr>agents = as, drivers = ds\<rparr> ticks = Some t \<longrightarrow>
            (\<exists>k simk dt rnd. k < length ticks \<and> ticks ! k = (t, dt, rnd) \<and>
               runSim \<lparr>agents = as, drivers = ds\<rparr> (take k ticks) = Some simk \<and>
               phase (agents simk ! i) = at_work \<and> geqOpt t (orderTime (agents simk ! i)) \<and>
               orderPass i \<lparr>agents = as, drivers = ds\<rparr> (take k ticks) = None)) \<and>
         (orderPass i \<lparr>agents = as, drivers = ds\<rparr> ticks = None \<longrightarrow>
            (\<forall>k simk. k < length ticks \<and>
               runSim \<lparr>agents = as, drivers = ds\<rparr> (take k ticks) = Some simk \<longrightarrow>
               \<not> (phase (agents simk ! i) = at_work \<and>
                  geqOpt (fst (ticks ! k)) (orderTime (agents simk ! i)))))"
proof -
  from assms(2,3,4) have od: "ordersDelivery (as ! i)"
    by (simp add: mkAgent_orders)
  from mkAgent_order_time[OF od[unfolded assms(2)] assms(5)] assms(2)
  obtain ot lst where ot: "orderTime (as ! i) = Some ot" "lunchStart (as ! i) = Num lst" "ot < lst"
    by auto
  define P where "P = (\<lambda>k (a::agent). k = i \<longrightarrow> ordersDelivery a \<and> orderTime a = Some ot \<and>
     length (entriesOf ''Ordered delivery'' a) = (if orderedDelivery a then 1 else 0) \<and>
     (\<forall>x\<in>set (map time (entriesOf ''Ordered delivery'' a)). ot \<le> x) \<and>
     entriesOf ''Left for lunch'' a = [])"
  have upd: "\<And>k a t dt r a'. P k a \<Longrightarrow> update a t dt r = Some a' \<Longrightarrow> P k a'"
  proof -
    fix k a t dt r a' assume p: "P k a" and u: "update a t dt r = Some a'"
    show "P k a'"
    proof (cases "k = i")
      case False
      then show ?thesis by (simp add: P_def)
    next
      case True
      with p have a: "ordersDelivery a" "orderTime a = Some ot"
        "length (entriesOf ''Ordered delivery'' a) = (if orderedDelivery a then 1 else 0)"
        "\<forall>x\<in>set (map time (entriesOf ''Ordered delivery'' a)). ot \<le> x"
        "entriesOf ''Left for lunch'' a = []"
        by (simp_all add: P_def)
      note s = schedule_fields(10,11)[OF update_schedule[OF u]]
      note l = update_lunches[OF u a(1)]
      show ?thesis
      proof (cases "phase a = at_work \<and> ordersDelivery a \<and> \<not> orderedDelivery a \<and> geqOpt t (orderTime a)")
        case c: True
        with update_orders[OF u] have o: "orderedDelivery a'"
          "map time (entriesOf ''Ordered delivery'' a') = map time (entriesOf ''Ordered delivery'' a) @ [t]"
          by simp_all
        from o(2) have "length (map time (entriesOf ''Ordered delivery'' a'))
                        = length (map time (entriesOf ''Ordered delivery'' a) @ [t])" by simp
        with a(3) c have "length (entriesOf ''Ordered delivery'' a') = 1" by simp
        moreover from c a(2) have "ot \<le> t" by simp
        moreover have "set (map time (entriesOf ''Ordered delivery'' a'))
                       = insert t (set (map time (entriesOf ''Ordered delivery'' a)))"
          unfolding o(2) by simp
        with a(4) \<open>ot \<le> t\<close> have "\<forall>x\<in>set (map time (entriesOf ''Ordered delivery'' a')). ot \<le> x"
          by (metis insert_iff)
        ultimately show ?thesis
          using o(1) a(1,2,5) s l by (simp add: P_def)
      next
        case c: False
        with update_orders[OF u] have "orderedDelivery a' = orderedDelivery a"
          "entriesOf ''Ordered delivery'' a' = entriesOf ''Ordered delivery'' a"
          by simp_all
        then show ?thesis using a s l by (simp add: P_def)
      qed
    qed
  qed
  have wr: "\<And>k a t a'. P k a \<Longrightarrow> courierWrote t a a' \<Longrightarrow> P k a'"
  proof -
    fix k a t a' assume p: "P k a" and w: "courierWrote t a a'"
    from schedule_fields(10,11)[OF courierWrote_keeps(1)[OF w]] courierWrote_keeps(2,5,6)[OF w] p
    show "P k a'" by (simp add: P_def)
  qed
  have init: "\<forall>k<length (agents \<lparr>agents = as, drivers = ds\<rparr>). P k (agents \<lparr>agents = as, drivers = ds\<rparr> ! k)"
    using od ot(1) assms(2) by (simp add: P_def entriesOf_def mkAgent_fresh)
  have "length (agents sim') = length (agents \<lparr>agents = as, drivers = ds\<rparr>) \<and>
         (\<forall>k<length (agents \<lparr>agents = as, drivers = ds\<rparr>). P k (agents sim' ! k)) \<and>
         map drv_agent (drivers sim') = map drv_agent (drivers \<lparr>agents = as, drivers = ds\<rparr>) \<and>
         map departureTime (drivers sim') = map departureTime (drivers \<lparr>agents = as, drivers = ds\<rparr>)"
    by (rule runSim_preserves[of P _ ticks]) (fact upd wr assms(6) init)+
  with assms(1)
  have "i < length (agents sim')" "P i (agents sim' ! i)" by simp_all
  with od ot have first: "\<exists>ot lst. ordersDelivery (as ! i) \<and> orderTime (as ! i) = Some ot \<and>
           lunchStart (as ! i) = Num lst \<and> ot < lst \<and> i < length (agents sim') \<and>
           length (entriesOf ''Ordered delivery'' (agents sim' ! i)) =
             (if orderedDelivery (agents sim' ! i) then 1 else 0) \<and>
           (\<forall>e\<in>set (entriesOf ''Ordered delivery'' (agents sim' ! i)). ot \<le> time e) \<and>
           entriesOf ''Left for lunch'' (agents sim' ! i) = []"
    by (simp add: P_def)
  have fresh: "\<not> orderedDelivery (as ! i)" "entriesOf ''Ordered delivery'' (as ! i) = []"
    using assms(2) by (simp_all add: entriesOf_def mkAgent_fresh)
  from runSim_order[OF assms(6), of i] assms(1) od fresh
  have second: "map time (entriesOf ''Ordered delivery'' (agents sim' ! i)) =
           (case orderPass i \<lparr>agents = as, drivers = ds\<rparr> ticks of None \<Rightarrow> [] | Some t \<Rightarrow> [t])"
    "orderedDelivery (agents sim' ! i) = (orderPass i \<lparr>agents = as, drivers = ds\<rparr> ticks \<noteq> None)"
    by (auto split: option.splits)
  have third: "\<forall>t. orderPass i \<lparr>agents = as, drivers = ds\<rparr> ticks = Some t \<longrightarrow>
            (\<exists>k simk dt rnd. k < length ticks \<and> ticks ! k = (t, dt, rnd) \<and>
               runSim \<lparr>agents = as, drivers = ds\<rparr> (take k ticks) = Some simk \<and>
               phase (agents simk ! i) = at_work \<and> geqOpt t (orderTime (agents simk ! i)) \<and>
               orderPass i \<lparr>agents = as, drivers = ds\<rparr> (take k ticks) = None)"
    using orderPass_pass by blast
  have fourth: "orderPass i \<lparr>agents = as, drivers = ds\<rparr> ticks = None \<longrightarrow>
            (\<forall>k simk. k < length ticks \<and>
               runSim \<lparr>agents = as, drivers = ds\<rparr> (take k ticks) = Some simk \<longrightarrow>
               \<not> (phase (agents simk ! i) = at_work \<and>
                  geqOpt (fst (ticks ! k)) (orderTime (agents simk ! i))))"
    using orderPass_none[OF _ assms(6)] by blast
  show ?thesis
    by (intro conjI) (fact first second third fourth)+
qed


subsection \<open>Deliveries in the log\<close>

definition deliveriesOf :: "agent \<Rightarrow> logEntry list" where
  "deliveriesOf a = filter isDelivery (eventLog a)"

lemma deliveriesOf_upd [simp]:
  "deliveriesOf (a\<lparr>path := v1\<rparr>) = deliveriesOf a"
  "deliveriesOf (a\<lparr>pathIndex := v2\<rparr>) = deliveriesOf a"
  "deliveriesOf (a\<lparr>moveProgress := v3\<rparr>) = deliveriesOf a"
  "deliveriesOf (a\<lparr>pathHistory := v4\<rparr>) = deliveriesOf a"
  "deliveriesOf (a\<lparr>x := v5\<rparr>) = deliveriesOf a"
  "deliveriesOf (a\<lparr>y := v6\<rparr>) = deliveriesOf a"
  "deliveriesOf (a\<lparr>state := v7\<rparr>) = deliveriesOf a"
  "deliveriesOf (a\<lparr>phase := v8\<rparr>) = deliveriesOf a"
  "deliveriesOf (a\<lparr>hadLunch := v10\<rparr>) = deliveriesOf a"
  "deliveriesOf (a\<lparr>orderedDelivery := v11\<rparr>) = deliveriesOf a"
  "deliveriesOf (a\<lparr>leisureDepartureTime := v12\<rparr>) = deliveriesOf a"
  "deliveriesOf (a\<lparr>leisureEndTime := v13\<rparr>) = deliveriesOf a"
  by (simp_all add: deliveriesOf_def)

lemma deliveriesOf_logEvent:
  "deliveriesOf (logEvent a ev t l) =
     (if take 12 ev = ''Delivery by ''
      then deliveriesOf a @ [\<lparr>event = ev, time = t,
             location = (case l of None \<Rightarrow> None | Some n \<Rightarrow> if n = [] then None else Some n)\<rparr>]
      else deliveriesOf a)"
  by (simp add: deliveriesOf_def isDelivery_def)

lemma deliveriesOf_keeps:
  "deliveriesOf (decideLeisure a t r) = deliveriesOf a"
  "navigateTo a tg = Some a' \<Longrightarrow> deliveriesOf a' = deliveriesOf a"
  "moveAlongPath a dt = (a', b) \<Longrightarrow> deliveriesOf a' = deliveriesOf a"
  by (simp_all add: deliveriesOf_def navigateTo_keeps moveAlongPath_keeps)

lemma headHome_deliveries:
  assumes "headHome a t np r = Some a'"
  shows "deliveriesOf a' = deliveriesOf a"
  using headHome_log[OF assms] by (auto simp: deliveriesOf_def isDelivery_def)

text \<open>The actor's own calls write no delivery entry.\<close>

lemma update_deliveries:
  assumes "update a t dt r = Some a'"
  shows "deliveriesOf a' = deliveriesOf a"
  using assms unfolding update_def
  by (cases "phase a")
     (auto simp: upd_defs Let_def navigateTo_keeps moveAlongPath_keeps
           deliveriesOf_logEvent deliveriesOf_keeps headHome_deliveries
           split: option.splits if_splits prod.splits)

subsection \<open>The invariant of a courier and its owner\<close>

text \<open>A courier has delivered when it is dropping off or returning, or finished after
  a trip (a courier finished without a route has departure time \<open>Infinity\<close>).\<close>

definition delivered :: "driver \<Rightarrow> bool" where
  "delivered d \<longleftrightarrow>
     drv_phase d = d_dropping_off \<or> drv_phase d = d_returning \<or>
     (drv_phase d = d_done \<and> departureTime d \<noteq> Infinity)"

text \<open>
  At the hour \<open>t\<close> of the last pass: a courier that has left and is not finished has a
  departure time;
  a courier that is under way left at or after it; and the owner's log holds one
  delivery entry, stamped at or after the departure time, if the courier has delivered,
  and none otherwise.
\<close>

definition courierInv :: "real \<Rightarrow> driver \<Rightarrow> agent \<Rightarrow> bool" where
  "courierInv t d a \<longleftrightarrow>
     (drv_phase d = d_delivering \<or> drv_phase d = d_dropping_off \<or> drv_phase d = d_returning
        \<longrightarrow> departureTime d \<noteq> Infinity) \<and>
     (drv_phase d = d_delivering \<longrightarrow> geq t (departureTime d)) \<and>
     (if delivered d
      then (\<exists>e. deliveriesOf a = [e] \<and> geq (time e) (departureTime d))
      else deliveriesOf a = [])"

lemma geq_mono: "geq t v \<Longrightarrow> t \<le> t' \<Longrightarrow> geq t' v"
  by (cases v) simp_all

lemma courierInv_update:
  assumes "courierInv t d a" and "update a t' dt r = Some a'"
  shows "courierInv t d a'"
  using assms(1) update_deliveries[OF assms(2)] by (simp add: courierInv_def)

lemma drv_moveAlongPath_same:
  assumes "drv_moveAlongPath d dt = (d', b)"
  shows "departureTime d' = departureTime d" "drv_phase d' = drv_phase d"
    "drv_city d' = drv_city d" "drv_eatery d' = drv_eatery d" "drv_business d' = drv_business d"
  using assms
  by (auto simp: drv_moveAlongPath_def Let_def split: option.splits if_splits prod.splits)

lemma courierInv_step:
  assumes inv: "courierInv t d a" and le: "t \<le> t'"
    and upd: "drv_update d a t' dt = Some (d', a')"
  shows "courierInv t' d' a'"
proof (cases "drv_phase d")
  case d_waiting
  with upd have "a' = a" and "departureTime d' = departureTime d"
    and "drv_phase d' = d_waiting \<or> (drv_phase d' = d_delivering \<and> geq t' (departureTime d))"
    by (auto simp: drv_update_def split: if_splits)
  moreover have "geq t' (departureTime d) \<Longrightarrow> departureTime d \<noteq> Infinity" by auto
  ultimately show ?thesis using inv d_waiting
    by (auto simp: courierInv_def delivered_def)
next
  case d_delivering
  obtain d1 arrived where m: "drv_moveAlongPath d dt = (d1, arrived)"
    by (cases "drv_moveAlongPath d dt")
  note k = drv_moveAlongPath_same[OF m]
  from inv d_delivering le have dep: "geq t' (departureTime d)" "departureTime d \<noteq> Infinity"
    "deliveriesOf a = []"
    by (auto simp: courierInv_def delivered_def intro: geq_mono)
  show ?thesis
  proof (cases arrived)
    case False
    with upd m d_delivering have "d' = d1" "a' = a"
      by (simp_all add: drv_update_def)
    with k dep d_delivering show ?thesis
      by (simp add: courierInv_def delivered_def)
  next
    case True
    with upd m d_delivering obtain n where
      d': "d' = d1\<lparr>drv_x := real_of_int (fst (drv_business d1)),
                   drv_y := real_of_int (snd (drv_business d1)),
                   dropOffEnd := t' + 10 / 60, drv_phase := d_dropping_off\<rparr>"
      and a': "a' = logEvent a (''Delivery by '' @ n) t' (Some n)"
      by (auto simp: drv_update_def Let_def)
    from a' dep(3) have "deliveriesOf a' = [\<lparr>event = ''Delivery by '' @ n, time = t',
           location = (if n = [] then None else Some n)\<rparr>]"
      by (simp add: deliveriesOf_logEvent)
    with d' k dep show ?thesis
      by (simp add: courierInv_def delivered_def)
  qed
next
  case d_dropping_off
  with upd have "a' = a" and "departureTime d' = departureTime d"
    and "drv_phase d' = d_dropping_off \<or> drv_phase d' = d_returning \<or> drv_phase d' = d_done"
    by (auto simp: drv_update_def drv_navigateTo_keeps split: if_splits option.splits)
  with inv d_dropping_off show ?thesis
    by (auto simp: courierInv_def delivered_def)
next
  case d_returning
  obtain d1 arrived where m: "drv_moveAlongPath d dt = (d1, arrived)"
    by (cases "drv_moveAlongPath d dt")
  note k = drv_moveAlongPath_same[OF m]
  from upd m d_returning have "a' = a" and "departureTime d' = departureTime d"
    and "drv_phase d' = d_returning \<or> drv_phase d' = d_done"
    using k by (auto simp: drv_update_def split: if_splits)
  with inv d_returning show ?thesis
    by (auto simp: courierInv_def delivered_def)
next
  case d_done
  with upd have "a' = a" "d' = d" by (simp_all add: drv_update_def)
  with inv d_done show ?thesis
    by (simp add: courierInv_def delivered_def)
qed

text \<open>With one courier for each owner, every courier of a pass is updated against its
  owner as the actors' updates left it, and the other actors are not touched.\<close>

lemma updateDrivers_parallel:
  "distinct (map drv_agent ds) \<Longrightarrow> updateDrivers ds as t dt = Some (ds', as') \<Longrightarrow>
   length ds' = length ds \<and>
   (\<forall>k<length ds. drv_agent (ds ! k) < length as \<and>
      drv_update (ds ! k) (as ! drv_agent (ds ! k)) t dt = Some (ds' ! k, as' ! drv_agent (ds ! k))) \<and>
   (\<forall>i<length as. i \<notin> set (map drv_agent ds) \<longrightarrow> as' ! i = as ! i)"
proof (induction ds arbitrary: as ds' as')
  case Nil
  then show ?case by simp
next
  case (Cons d ds)
  from Cons.prems(2) obtain d1 a1 ds1 where lt: "drv_agent d < length as"
    and du: "drv_update d (as ! drv_agent d) t dt = Some (d1, a1)"
    and rest: "updateDrivers ds (as[drv_agent d := a1]) t dt = Some (ds1, as')"
    and ds': "ds' = d1 # ds1"
    by (auto split: option.splits if_splits)
  from Cons.prems(1) have dist: "distinct (map drv_agent ds)" and fresh: "drv_agent d \<notin> set (map drv_agent ds)"
    by simp_all
  note ih = Cons.IH[OF dist rest]
  from ih lt fresh have here: "as' ! drv_agent d = a1" by simp
  have each: "drv_agent ((d # ds) ! k) < length as \<and>
      drv_update ((d # ds) ! k) (as ! drv_agent ((d # ds) ! k)) t dt
        = Some (ds' ! k, as' ! drv_agent ((d # ds) ! k))" if "k < length (d # ds)" for k
  proof (cases k)
    case 0
    with lt du here ds' show ?thesis by simp
  next
    case (Suc j)
    with that have j: "j < length ds" by simp
    with fresh have ne: "drv_agent (ds ! j) \<noteq> drv_agent d" by (metis nth_mem image_eqI list.set_map)
    from ih j have "drv_agent (ds ! j) < length as" and
      "drv_update (ds ! j) (as[drv_agent d := a1] ! drv_agent (ds ! j)) t dt
         = Some (ds1 ! j, as' ! drv_agent (ds ! j))" by simp_all
    moreover from ne have "as[drv_agent d := a1] ! drv_agent (ds ! j) = as ! drv_agent (ds ! j)"
      by simp
    ultimately show ?thesis using Suc ds' by simp
  qed
  have "as' ! i = as ! i" if "i < length as" "i \<notin> set (map drv_agent (d # ds))" for i
    using ih that by simp
  with each ih ds' show ?case by simp
qed


lemma loopStep_couriers:
  assumes dist: "distinct (map drv_agent (drivers sim))"
    and inv: "\<forall>k<length (drivers sim). drv_agent (drivers sim ! k) < length (agents sim) \<and>
               courierInv t (drivers sim ! k) (agents sim ! drv_agent (drivers sim ! k))"
    and le: "t \<le> t'" and step: "loopStep sim t' dt rnd = Some sim'"
  shows "distinct (map drv_agent (drivers sim')) \<and>
         (\<forall>k<length (drivers sim'). drv_agent (drivers sim' ! k) < length (agents sim') \<and>
               courierInv t' (drivers sim' ! k) (agents sim' ! drv_agent (drivers sim' ! k)))"
proof -
  from step obtain as1 ds' as2 where ua: "updateAgents 0 (agents sim) t' dt rnd = Some as1"
    and ud: "updateDrivers (drivers sim) as1 t' dt = Some (ds', as2)"
    and sim': "sim' = \<lparr>agents = as2, drivers = ds'\<rparr>"
    by (auto simp: loopStep_def split: option.splits)
  note a = updateAgents_nth[OF ua] and e = updateDrivers_effect[OF ud]
    and p = updateDrivers_parallel[OF dist ud]
  from e have refs: "map drv_agent ds' = map drv_agent (drivers sim)" by simp
  have "drv_agent (ds' ! k) < length as2 \<and> courierInv t' (ds' ! k) (as2 ! drv_agent (ds' ! k))"
    if k: "k < length ds'" for k
  proof -
    let ?d = "drivers sim ! k" and ?j = "drv_agent (drivers sim ! k)"
    from k p have k': "k < length (drivers sim)" by simp
    from refs k' have same: "drv_agent (ds' ! k) = ?j"
      by (metis length_map nth_map)
    from inv k' have j: "?j < length (agents sim)" and ci: "courierInv t ?d (agents sim ! ?j)"
      by simp_all
    from a j have "update (agents sim ! ?j) t' dt (rnd (0 + ?j)) = Some (as1 ! ?j)" by blast
    from courierInv_update[OF ci this] have c1: "courierInv t ?d (as1 ! ?j)" .
    from p k' have "drv_update ?d (as1 ! ?j) t' dt = Some (ds' ! k, as2 ! ?j)" by simp
    from courierInv_step[OF c1 le this] have "courierInv t' (ds' ! k) (as2 ! ?j)" .
    with same j a e show ?thesis by simp
  qed
  with refs dist sim' show ?thesis by simp
qed

lemma runSim_couriers:
  "runSim sim ticks = Some sim' \<Longrightarrow> sorted (t0 # map fst ticks) \<Longrightarrow>
   distinct (map drv_agent (drivers sim)) \<Longrightarrow>
   \<forall>k<length (drivers sim). drv_agent (drivers sim ! k) < length (agents sim) \<and>
       courierInv t0 (drivers sim ! k) (agents sim ! drv_agent (drivers sim ! k)) \<Longrightarrow>
   \<forall>k<length (drivers sim'). drv_agent (drivers sim' ! k) < length (agents sim') \<and>
       courierInv (last (t0 # map fst ticks)) (drivers sim' ! k)
         (agents sim' ! drv_agent (drivers sim' ! k))"
proof (induction ticks arbitrary: sim t0)
  case Nil
  then show ?case by simp
next
  case (Cons tk ticks)
  obtain t dt rnd where tk: "tk = (t, dt, rnd)" by (cases tk)
  from Cons.prems(1) tk obtain sim1 where s1: "loopStep sim t dt rnd = Some sim1"
    and r1: "runSim sim1 ticks = Some sim'"
    by (auto split: option.splits)
  from Cons.prems(2) tk have le: "t0 \<le> t" and srt: "sorted (t # map fst ticks)" by simp_all
  from loopStep_couriers[OF Cons.prems(3,4) le s1]
  have d1: "distinct (map drv_agent (drivers sim1))"
    and i1: "\<forall>k<length (drivers sim1). drv_agent (drivers sim1 ! k) < length (agents sim1) \<and>
               courierInv t (drivers sim1 ! k) (agents sim1 ! drv_agent (drivers sim1 ! k))"
    by blast+
  from Cons.IH[OF r1 srt d1 i1] tk show ?case by simp
qed

text \<open>The couriers as \<open>_createAgents\<close> makes them: waiting, or finished for want of a
  route; one for each owner.\<close>

lemma mkDriver_idle:
  "mkDriver ea bus ref a c shps r = Some d \<Longrightarrow>
   drv_phase d = d_waiting \<or> (drv_phase d = d_done \<and> departureTime d = Infinity)"
  by (auto simp: mkDriver_def Let_def split: option.splits if_splits)

lemma createDriversFrom_idle:
  "createDriversFrom c pos k rnd as = Some ds \<Longrightarrow>
   distinct (map drv_agent ds) \<and>
   (\<forall>d\<in>set ds. drv_phase d = d_waiting \<or> (drv_phase d = d_done \<and> departureTime d = Infinity))"
proof (induction as arbitrary: pos k ds)
  case Nil
  then show ?case by simp
next
  case (Cons a as)
  show ?case
  proof (cases "ordersDelivery a")
    case False
    with Cons.prems have "createDriversFrom c (Suc pos) k rnd as = Some ds" by simp
    from Cons.IH[OF this] show ?thesis .
  next
    case True
    with Cons.prems(1) obtain ea d0 rest where ea: "eatery a = Some ea"
      and d0: "mkDriver ea (workplace a) pos a c (SIM_DURATION_HOURS / SIM_DURATION_REAL) (rnd k) = Some d0"
      and rest: "createDriversFrom c (Suc pos) (Suc k) rnd as = Some rest" and ds: "ds = d0 # rest"
      by (auto split: option.splits)
    have "drv_agent d0 \<notin> set (map drv_agent rest)"
    proof
      assume "drv_agent d0 \<in> set (map drv_agent rest)"
      then obtain d where "d \<in> set rest" "drv_agent d = drv_agent d0" by auto
      with createDriversFrom_refs[OF rest this(1)] mkDriver_agent[OF d0] show False by simp
    qed
    with Cons.IH[OF rest] mkDriver_idle[OF d0] ds show ?thesis by simp
  qed
qed

text \<open>
  C6, as amended.  In a run of the loop whose simulated hours never decrease, started
  with empty logs and the couriers that \<open>_createAgents\<close> makes: for a courier that has
  finished after a trip (its departure time is a number), the log of its owner holds
  exactly one delivery entry; its timestamp is at least the courier's departure time;
  and the timestamps of the owner's log never decrease, so it is at least the timestamp
  of every entry logged before it, an \<open>Ordered delivery\<close> entry included.
\<close>

theorem delivery_timestamp:
  assumes "createDrivers c rnd as = Some ds" and "\<forall>a\<in>set as. eventLog a = []"
    and "sorted (map fst ticks)"
    and "runSim \<lparr>agents = as, drivers = ds\<rparr> ticks = Some sim'"
    and "d \<in> set (drivers sim')" and "drv_phase d = d_done" and "departureTime d = Num dep"
  shows "drv_agent d < length (agents sim') \<and>
         (\<exists>e. deliveriesOf (agents sim' ! drv_agent d) = [e] \<and> dep \<le> time e) \<and>
         sorted (map time (eventLog (agents sim' ! drv_agent d)))"
proof -
  let ?sim = "\<lparr>agents = as, drivers = ds\<rparr>"
  define t0 where "t0 = (case ticks of [] \<Rightarrow> 0 | tk # _ \<Rightarrow> fst tk)"
  from assms(3) have srt: "sorted (t0 # map fst ticks)"
    by (cases ticks) (simp_all add: t0_def)
  note cr = createDriversFrom_idle[OF assms(1)[unfolded createDrivers_def]]
  have init: "\<forall>k<length (drivers ?sim). drv_agent (drivers ?sim ! k) < length (agents ?sim) \<and>
       courierInv t0 (drivers ?sim ! k) (agents ?sim ! drv_agent (drivers ?sim ! k))"
  proof (intro allI impI)
    fix k assume "k < length (drivers ?sim)"
    then have mem: "ds ! k \<in> set ds" by simp
    from createDriversFrom_refs[OF assms(1)[unfolded createDrivers_def] mem]
    have lt: "drv_agent (ds ! k) < length as" by simp
    with assms(2) have "eventLog (as ! drv_agent (ds ! k)) = []" by simp
    with cr mem have "courierInv t0 (ds ! k) (as ! drv_agent (ds ! k))"
      by (auto simp: courierInv_def delivered_def deliveriesOf_def)
    with lt show "drv_agent (drivers ?sim ! k) < length (agents ?sim) \<and>
       courierInv t0 (drivers ?sim ! k) (agents ?sim ! drv_agent (drivers ?sim ! k))"
      by simp
  qed
  from cr have dist: "distinct (map drv_agent (drivers ?sim))" by simp
  from assms(5) obtain k where k: "k < length (drivers sim')" "d = drivers sim' ! k"
    by (auto simp: in_set_conv_nth)
  from runSim_couriers[OF assms(4) srt dist init] k
  have lt: "drv_agent d < length (agents sim')"
    and ci: "courierInv (last (t0 # map fst ticks)) d (agents sim' ! drv_agent d)"
    by simp_all
  from ci assms(6,7) have "\<exists>e. deliveriesOf (agents sim' ! drv_agent d) = [e] \<and> dep \<le> time e"
    by (simp add: courierInv_def delivered_def)
  moreover from runSim_logs_sorted[OF assms(4,3)] assms(2) lt
  have "sorted (map time (eventLog (agents sim' ! drv_agent d)))" by simp
  ultimately show ?thesis using lt by simp
qed



subsection \<open>A long street\<close>






subsection \<open>Examples of runs\<close>

text \<open>
  A street of 24 cells: home, a cell of road, the workplace, twenty cells of road, the
  eatery, which is 21 tiles from the workplace.
\<close>

definition cityLong :: city where
  "cityLong = \<lparr> cols = 24, rows = 1,
     grid = [[HOUSE, ROAD, BUSINESS] @ replicate 20 ROAD @ [EATERY]],
     tileNames = (\<lambda>_. None) \<rparr>"

text \<open>
  Two actors of this city, built with every random value 0 but, for the second, the one
  that decides about lunch: the first takes lunch at 9.5 and orders delivery at 9.5 - 25
  min, the second takes no lunch.  Both work from 6 to 13 and go to bed at 20.
\<close>

definition actorOrder :: agent where
  "actorOrder = mkAgent 0 (0, 0) (2, 0) None (Some (23, 0)) cityLong (\<lambda>_. 0)"

definition actorFar :: agent where
  "actorFar = mkAgent 1 (0, 0) (2, 0) None (Some (23, 0)) cityLong (\<lambda>k. if k = 4 then 0.9 else 0)"

definition simOrder :: simulation where
  "simOrder = \<lparr>agents = [actorOrder, actorFar],
               drivers = the (createDrivers cityLong (\<lambda>_. 0) [actorOrder, actorFar])\<rparr>"

definition simFar :: simulation where
  "simFar = \<lparr>agents = [actorFar], drivers = the (createDrivers cityLong (\<lambda>_. 0) [actorFar])\<rparr>"

text \<open>
  The passes of \<open>_loop\<close> for frames at the real times \<open>now\<close>, in seconds since the start
  of a run without pauses: the simulated hour of a pass is \<open>elapsed / 180 * 24\<close>, its delta
  the time since the last frame; the loop ends at the first frame at or after 180 seconds.
\<close>

fun frames :: "real \<Rightarrow> real list \<Rightarrow> (nat \<Rightarrow> real) \<Rightarrow> (real \<times> real \<times> (nat \<Rightarrow> real)) list" where
  "frames lastFrameTime [] rnd = []"
| "frames lastFrameTime (now # nows) rnd =
     (if now \<ge> SIM_DURATION_REAL then []
      else (now / SIM_DURATION_REAL * SIM_DURATION_HOURS, now - lastFrameTime, rnd)
           # frames now nows rnd)"

text \<open>A full day, in six frames: at the hours 5.5, 6, 6.1, 13, 13.1 and 20.\<close>

definition dayFrames :: "(real \<times> real \<times> (nat \<Rightarrow> real)) list" where
  "dayFrames = frames 0 [41.25, 45, 45.75, 97.5, 98.25, 150] (\<lambda>_. 0)"

text \<open>A morning with a stall: frames at the hours 5.5, 6, 6.1, 9.1, then none until 10.5,
  then 10.7, 11, 11.5 and 12.\<close>

definition stallFrames :: "(real \<times> real \<times> (nat \<Rightarrow> real)) list" where
  "stallFrames = frames 0 [41.25, 45, 45.75, 68.25, 78.75, 80.25, 82.5, 86.25, 90] (\<lambda>_. 0)"

text \<open>A morning that starts late: frames at the hours 5.5, then none until 9.1, then 9.5,
  9.6, 9.7, 10, 10.5 and 11.\<close>

definition lateFrames :: "(real \<times> real \<times> (nat \<Rightarrow> real)) list" where
  "lateFrames = frames 0 [41.25, 68.25, 71.25, 72, 72.75, 75, 78.75, 82.5] (\<lambda>_. 0)"

lemma stallFrames_hours:
  "map fst stallFrames = [5.5, 6, 6.1, 9.1, 10.5, 10.7, 11, 11.5, 12]"
  "map (\<lambda>p. fst (snd p)) stallFrames = [41.25, 3.75, 0.75, 22.5, 10.5, 1.5, 2.25, 3.75, 3.75]"
  by (simp_all add: stallFrames_def SIM_DURATION_REAL_def SIM_DURATION_HOURS_def)

lemma lateFrames_hours:
  "map fst lateFrames = [5.5, 9.1, 9.5, 9.6, 9.7, 10, 10.5, 11]"
  "map (\<lambda>p. fst (snd p)) lateFrames = [41.25, 27, 3, 0.75, 0.75, 2.25, 3.75, 3.75]"
  by (simp_all add: lateFrames_def SIM_DURATION_REAL_def SIM_DURATION_HOURS_def)

lemma simOrder_created:
  "\<exists>ds. createDrivers cityLong (\<lambda>_. 0) [actorOrder, actorFar] = Some ds \<and>
        simOrder = \<lparr>agents = [actorOrder, actorFar], drivers = ds\<rparr>"
proof -
  have "map_option length (createDrivers cityLong (\<lambda>_. 0) [actorOrder, actorFar]) = Some 1"
    by code_simp
  then show ?thesis by (auto simp: simOrder_def)
qed

lemma simOrder_stall:
  "map_option (\<lambda>s. (map (\<lambda>d. (drv_phase d, departureTime d, drv_agent d)) (drivers s),
                    map (\<lambda>a. map (\<lambda>e. (event e, time e)) (eventLog a)) (agents s),
                    map orderedDelivery (agents s)))
     (runSim simOrder stallFrames)
   = Some ([(d_done, Num 9.1, 0)],
           [[(''Wake up'', 5.5), (''Left home'', 6), (''Arrived work'', 6.1),
             (''Ordered delivery'', 9.1), (''Delivery by Eatery'', 10.5)],
            [(''Wake up'', 5.5), (''Left home'', 6), (''Arrived work'', 6.1)]],
           [True, False])"
  by code_simp

lemma simOrder_late:
  "map_option (\<lambda>s. (map drv_phase (drivers s),
                    map (\<lambda>e. (event e, time e)) (eventLog (agents s ! 0))))
     (runSim simOrder lateFrames)
   = Some ([d_done],
           [(''Wake up'', 5.5), (''Left home'', 9.1), (''Arrived work'', 9.5),
            (''Delivery by Eatery'', 9.5), (''Ordered delivery'', 9.6)])"
  by code_simp

lemma simFar_day:
  "map_option (\<lambda>s. map (\<lambda>a. map event (eventLog a)) (agents s)) (runSim simFar dayFrames)
   = Some [[''Wake up'', ''Left home'', ''Arrived work'', ''Left work'', ''Arrived home'',
            ''Went to sleep'']]"
  by code_simp


subsection \<open>The claims on these runs\<close>

text \<open>
  C10.  In a run of the loop whose simulated hours never decrease, started with empty
  logs, the timestamps of every actor's log never decrease in the order of the entries,
  the entries written by couriers included.
\<close>

theorem log_timestamps_nondecreasing:
  assumes "runSim sim ticks = Some sim'" and "sorted (map fst ticks)"
    and "\<forall>a\<in>set (agents sim). eventLog a = []"
  shows "\<forall>a\<in>set (agents sim'). sorted (map time (eventLog a))"
  using runSim_logs_sorted[OF assms] .

theorem log_timestamps_nondecreasing_witness:
  "\<exists>sim'. runSim simOrder stallFrames = Some sim' \<and> sorted (map fst stallFrames) \<and>
          list_all (\<lambda>a. eventLog a = []) (agents simOrder) \<and>
          map (\<lambda>a. map time (eventLog a)) (agents sim') = [[5.5, 6, 6.1, 9.1, 10.5], [5.5, 6, 6.1]] \<and>
          list_all (\<lambda>a. sorted (map time (eventLog a))) (agents sim')"
proof -
  from simOrder_stall obtain sim' where run: "runSim simOrder stallFrames = Some sim'"
    and logs: "map (\<lambda>a. map (\<lambda>e. (event e, time e)) (eventLog a)) (agents sim')
               = [[(''Wake up'', 5.5), (''Left home'', 6), (''Arrived work'', 6.1),
                   (''Ordered delivery'', 9.1), (''Delivery by Eatery'', 10.5)],
                  [(''Wake up'', 5.5), (''Left home'', 6), (''Arrived work'', 6.1)]]"
    by auto
  have "map (\<lambda>a. map time (eventLog a)) (agents sim')
        = map (map snd) (map (\<lambda>a. map (\<lambda>e. (event e, time e)) (eventLog a)) (agents sim'))"
    by (simp add: comp_def)
  then have times: "map (\<lambda>a. map time (eventLog a)) (agents sim') = [[5.5, 6, 6.1, 9.1, 10.5], [5.5, 6, 6.1]]"
    unfolding logs by simp
  have srt: "sorted (map fst stallFrames)" by (simp add: stallFrames_hours)
  have empty: "\<forall>a\<in>set (agents simOrder). eventLog a = []"
    by (simp add: simOrder_def actorOrder_def actorFar_def mkAgent_fresh)
  from log_timestamps_nondecreasing[OF run srt empty] run srt empty times
  show ?thesis by (auto simp: list_all_iff)
qed

theorem no_lunch_no_delivery_witness:
  "\<exists>ds sim'. createDrivers cityLong (\<lambda>_. 0) [actorOrder, actorFar] = Some ds \<and>
             runSim \<lparr>agents = [actorOrder, actorFar], drivers = ds\<rparr> stallFrames = Some sim' \<and>
             \<not> takesLunch actorFar \<and> \<not> ordersDelivery actorFar \<and>
             map drv_agent ds = [0] \<and> map drv_agent (drivers sim') = [0] \<and>
             entriesOf ''Ordered delivery'' (agents sim' ! 1) = []"
proof -
  from simOrder_created obtain ds where ds: "createDrivers cityLong (\<lambda>_. 0) [actorOrder, actorFar] = Some ds"
    "simOrder = \<lparr>agents = [actorOrder, actorFar], drivers = ds\<rparr>" by blast
  from simOrder_stall ds(2) obtain sim' where
    run: "runSim \<lparr>agents = [actorOrder, actorFar], drivers = ds\<rparr> stallFrames = Some sim'"
    and drv: "map (\<lambda>d. (drv_phase d, departureTime d, drv_agent d)) (drivers sim') = [(d_done, Num 9.1, 0)]"
    by auto
  have "map drv_agent (drivers sim')
        = map (\<lambda>p. snd (snd p)) (map (\<lambda>d. (drv_phase d, departureTime d, drv_agent d)) (drivers sim'))"
    by (simp add: comp_def)
  then have refs': "map drv_agent (drivers sim') = [0]" unfolding drv by simp
  have "map_option (map drv_agent) (createDrivers cityLong (\<lambda>_. 0) [actorOrder, actorFar]) = Some [0]"
    by code_simp
  with ds(1) have refs: "map drv_agent ds = [0]" by simp
  have nl: "\<not> takesLunch actorFar" by code_simp
  have far: "[actorOrder, actorFar] ! 1 = mkAgent 1 (0, 0) (2, 0) None (Some (23, 0)) cityLong
                                           (\<lambda>k. if k = 4 then 0.9 else 0)"
    by (simp add: actorFar_def)
  from no_lunch_no_delivery[of 1 "[actorOrder, actorFar]", OF _ far _ ds(1) run] nl
  have "\<not> ordersDelivery actorFar" "entriesOf ''Ordered delivery'' (agents sim' ! 1) = []"
    by simp_all
  with ds(1) run nl refs refs' show ?thesis
    by (intro exI[of _ ds] exI[of _ sim'] conjI) simp_all
qed

theorem far_eatery_orders_delivery_witness:
  "\<exists>sim'. runSim simOrder stallFrames = Some sim' \<and> takesLunch actorOrder \<and>
          chebyshev (2, 0) (23, 0) > 20 \<and> ordersDelivery actorOrder \<and>
          orderTime actorOrder = Some (109 / 12) \<and> lunchStart actorOrder = Num 9.5 \<and>
          orderPass 0 simOrder stallFrames = Some 9.1 \<and>
          orderedDelivery (agents sim' ! 0) \<and>
          map time (entriesOf ''Ordered delivery'' (agents sim' ! 0)) = [9.1] \<and>
          entriesOf ''Left for lunch'' (agents sim' ! 0) = []"
proof -
  from simOrder_created obtain ds where ds:
    "simOrder = \<lparr>agents = [actorOrder, actorFar], drivers = ds\<rparr>" by blast
  from simOrder_stall obtain sim' where run: "runSim simOrder stallFrames = Some sim'"
    by auto
  have tl: "takesLunch actorOrder" by code_simp
  have ch: "chebyshev (2, 0) (23, 0) > 20" by (simp add: chebyshev_def)
  have ot: "orderTime actorOrder = Some (109 / 12)" "lunchStart actorOrder = Num 9.5" by code_simp+
  have op: "orderPass 0 simOrder stallFrames = Some 9.1" by code_simp
  have first: "[actorOrder, actorFar] ! 0 = mkAgent 0 (0, 0) (2, 0) None (Some (23, 0)) cityLong (\<lambda>_. 0)"
    by (simp add: actorOrder_def)
  have p1: "0 < length [actorOrder, actorFar]" by simp
  have p3: "takesLunch ([actorOrder, actorFar] ! 0)" using tl by simp
  have p5: "(0 :: real) \<le> 0" by simp
  note th = far_eatery_orders_delivery[OF p1 first p3 ch p5 run[unfolded ds]]
  note op' = op[unfolded ds]
  from th[THEN conjunct1] have a: "ordersDelivery actorOrder"
    "entriesOf ''Left for lunch'' (agents sim' ! 0) = []"
    by auto
  from th[THEN conjunct2, THEN conjunct1]
  have b: "map time (entriesOf ''Ordered delivery'' (agents sim' ! 0)) = [9.1]"
    unfolding op' by simp
  from th[THEN conjunct2, THEN conjunct2, THEN conjunct1]
  have c: "orderedDelivery (agents sim' ! 0)"
    unfolding op' by simp
  from run tl ch ot op a b c show ?thesis
    by (intro exI[of _ sim'] conjI) simp_all
qed

text \<open>
  The claim as stated fails: the second actor's eatery is 21 tiles from its workplace,
  but it takes no lunch.  No courier is made for it, and in a full day its log holds no
  \<open>Ordered delivery\<close> event.  The first actor takes lunch at 9.5 and orders; on a morning
  whose passes start late it reaches work at 9.5 and logs its order at 9.6, after its
  lunch start.
\<close>

theorem far_eatery_orders_delivery_counterexample:
  "workplace actorFar = (2, 0) \<and> eatery actorFar = Some (23, 0) \<and>
   chebyshev (2, 0) (23, 0) = 21 \<and> takesLunch actorFar = False \<and>
   map_option length (createDrivers cityLong (\<lambda>_. 0) [actorFar]) = Some 0 \<and>
   map_option (\<lambda>s. map (\<lambda>a. map event (eventLog a)) (agents s)) (runSim simFar dayFrames)
     = Some [[''Wake up'', ''Left home'', ''Arrived work'', ''Left work'', ''Arrived home'',
              ''Went to sleep'']] \<and>
   takesLunch actorOrder \<and> lunchStart actorOrder = Num 9.5 \<and>
   map_option (\<lambda>s. map (\<lambda>e. (event e, time e)) (entriesOf ''Ordered delivery'' (agents s ! 0)))
     (runSim simOrder lateFrames) = Some [(''Ordered delivery'', 9.6)] \<and>
   (9.5 :: real) < 9.6"
  by code_simp





theorem delivery_timestamp_witness:
  "\<exists>ds sim' d. createDrivers cityLong (\<lambda>_. 0) [actorOrder, actorFar] = Some ds \<and>
      runSim \<lparr>agents = [actorOrder, actorFar], drivers = ds\<rparr> stallFrames = Some sim' \<and>
      sorted (map fst stallFrames) \<and> d \<in> set (drivers sim') \<and> drv_phase d = d_done \<and>
      departureTime d = Num 9.1 \<and> drv_agent d = 0 \<and>
      map time (eventLog (agents sim' ! 0)) = [5.5, 6, 6.1, 9.1, 10.5] \<and>
      (\<exists>e. deliveriesOf (agents sim' ! drv_agent d) = [e] \<and> 9.1 \<le> time e) \<and>
      sorted (map time (eventLog (agents sim' ! drv_agent d)))"
proof -
  from simOrder_created obtain ds where ds: "createDrivers cityLong (\<lambda>_. 0) [actorOrder, actorFar] = Some ds"
    "simOrder = \<lparr>agents = [actorOrder, actorFar], drivers = ds\<rparr>" by blast
  from simOrder_stall ds(2) obtain sim' where
    run: "runSim \<lparr>agents = [actorOrder, actorFar], drivers = ds\<rparr> stallFrames = Some sim'"
    and drv: "map (\<lambda>d. (drv_phase d, departureTime d, drv_agent d)) (drivers sim') = [(d_done, Num 9.1, 0)]"
    and logs: "map (\<lambda>a. map (\<lambda>e. (event e, time e)) (eventLog a)) (agents sim')
               = [[(''Wake up'', 5.5), (''Left home'', 6), (''Arrived work'', 6.1),
                   (''Ordered delivery'', 9.1), (''Delivery by Eatery'', 10.5)],
                  [(''Wake up'', 5.5), (''Left home'', 6), (''Arrived work'', 6.1)]]"
    by auto
  from drv obtain d where d: "drivers sim' = [d]" "drv_phase d = d_done" "departureTime d = Num 9.1"
    "drv_agent d = 0"
    by (cases "drivers sim'") auto
  from logs obtain a0 a1 where as: "agents sim' = [a0, a1]"
    and l0: "map (\<lambda>e. (event e, time e)) (eventLog a0)
             = [(''Wake up'', 5.5), (''Left home'', 6), (''Arrived work'', 6.1),
                (''Ordered delivery'', 9.1), (''Delivery by Eatery'', 10.5)]"
    by (cases "agents sim'") auto
  have "map time (eventLog a0) = map snd (map (\<lambda>e. (event e, time e)) (eventLog a0))"
    by (simp add: comp_def)
  then have times: "map time (eventLog (agents sim' ! 0)) = [5.5, 6, 6.1, 9.1, 10.5]"
    unfolding l0 by (simp add: as)
  have srt: "sorted (map fst stallFrames)" by (simp add: stallFrames_hours)
  have empty: "\<forall>a\<in>set [actorOrder, actorFar]. eventLog a = []"
    by (simp add: actorOrder_def actorFar_def mkAgent_fresh)
  have mem: "d \<in> set (drivers sim')" using d(1) by simp
  from delivery_timestamp[OF ds(1) empty srt run mem d(2,3)]
  have "(\<exists>e. deliveriesOf (agents sim' ! drv_agent d) = [e] \<and> 9.1 \<le> time e)"
    and "sorted (map time (eventLog (agents sim' ! drv_agent d)))"
    by blast+
  with ds(1) run srt mem d times show ?thesis
    by (intro exI[of _ ds] exI[of _ sim'] exI[of _ d] conjI) simp_all
qed

text \<open>
  The claim as stated fails.  After a stall of the loop from 9.1 to 10.5 the courier
  arrives at 10.5, after the lunch end 10 of its owner.  On a morning whose passes start
  late, the courier arrives at 9.5, in the pass in which its owner arrives at work, and
  the owner logs its order in the next pass, at 9.6, after the delivery.  In both runs
  the courier finishes.
\<close>

theorem delivery_timestamp_counterexample:
  "lunchEnd actorOrder = Num 10 \<and> sorted (map fst stallFrames) \<and> sorted (map fst lateFrames) \<and>
   map_option (\<lambda>s. (map drv_phase (drivers s),
                    map (\<lambda>e. (event e, time e)) (eventLog (agents s ! 0))))
     (runSim simOrder stallFrames)
   = Some ([d_done],
           [(''Wake up'', 5.5), (''Left home'', 6), (''Arrived work'', 6.1),
            (''Ordered delivery'', 9.1), (''Delivery by Eatery'', 10.5)]) \<and>
   (10 :: real) < 10.5 \<and>
   map_option (\<lambda>s. (map drv_phase (drivers s),
                    map (\<lambda>e. (event e, time e)) (eventLog (agents s ! 0))))
     (runSim simOrder lateFrames)
   = Some ([d_done],
           [(''Wake up'', 5.5), (''Left home'', 9.1), (''Arrived work'', 9.5),
            (''Delivery by Eatery'', 9.5), (''Ordered delivery'', 9.6)]) \<and>
   (9.5 :: real) < 9.6"
  by code_simp

end
